theory Spec2Isabelle
  imports Main "HOL-Library.Sublist"
begin

section \<open>Byte-pair encoding over a joined corpus (bpe\_tokenizer\_wikitext.py)\<close>

text \<open>
  Python values are modelled as follows.
  \<^item> \<open>int\<close> is HOL's unbounded \<open>int\<close>; a token, a merged id and a pair count are ints.
  \<^item> \<open>str\<close> is the list of its code points (\<open>nat\<close>, below \<open>0x110000\<close>);
    \<open>bytes\<close> is the list of its byte values (\<open>nat\<close>, below 256).
  \<^item> \<open>dict\<close> keeps insertion order: an association list with distinct keys, the
    oldest key first.
  \<^item> an exception is the \<open>Inl\<close> branch of a sum; a loop that may run forever returns
    \<open>None\<close> when it does.
\<close>

datatype error = ValueError | KeyError | UnicodeEncodeError | UnicodeDecodeError

type_synonym py_str = "nat list"
type_synonym py_bytes = "nat list"
type_synonym pair = "int \<times> int"
type_synonym ('k, 'v) dict = "('k \<times> 'v) list"

subsection \<open>Dictionaries\<close>

text \<open>\<^verbatim>\<open>k in d\<close>, \<^verbatim>\<open>d[k]\<close> (raising KeyError) and \<^verbatim>\<open>d[k] = v\<close>: an
  existing key keeps its position, a new key goes to the end.\<close>

definition dict_contains :: "'k \<Rightarrow> ('k, 'v) dict \<Rightarrow> bool" where
  "dict_contains k d = (map_of d k \<noteq> None)"

definition dict_get :: "('k, 'v) dict \<Rightarrow> 'k \<Rightarrow> error + 'v" where
  "dict_get d k = (case map_of d k of None \<Rightarrow> Inl KeyError | Some v \<Rightarrow> Inr v)"

fun dict_set :: "'k \<Rightarrow> 'v \<Rightarrow> ('k, 'v) dict \<Rightarrow> ('k, 'v) dict" where
  "dict_set k v [] = [(k, v)]"
| "dict_set k v ((k', v') # d) =
     (if k' = k then (k', v) # d else (k', v') # dict_set k v d)"

text \<open>\<^verbatim>\<open>pairs[pair] += 1\<close> on a \<^verbatim>\<open>defaultdict(int)\<close>: a missing key is created
  with 0 and then incremented.\<close>

fun dict_incr :: "'k \<Rightarrow> ('k, int) dict \<Rightarrow> ('k, int) dict" where
  "dict_incr k [] = [(k, 0 + 1)]"
| "dict_incr k ((k', c) # d) =
     (if k' = k then (k', c + 1) # d else (k', c) # dict_incr k d)"

subsection \<open>get\_byte\_pair\_frequency\<close>

text \<open>\<^verbatim>\<open>for i in range(len(byte_sequence) - 1)\<close>: for an empty sequence the range is
  \<^verbatim>\<open>range(-1)\<close>, which is empty, as \<open>[0..<0 - 1]\<close> is over \<open>nat\<close>.\<close>

definition get_byte_pair_frequency :: "int list \<Rightarrow> (pair, int) dict" where
  "get_byte_pair_frequency byte_sequence =
     foldl (\<lambda>pairs i. dict_incr (byte_sequence ! i, byte_sequence ! (i + 1)) pairs)
       [] [0..<length byte_sequence - 1]"

subsection \<open>merge\_byte\_pair\<close>

text \<open>The \<^verbatim>\<open>while i < len(byte_sequence)\<close> loop, with the index and the output list
  as the loop state.\<close>

function merge_loop :: "int list \<Rightarrow> pair \<Rightarrow> int \<Rightarrow> nat \<Rightarrow> int list \<Rightarrow> int list" where
  "merge_loop byte_sequence pair new_token i new_sequence =
     (if i < length byte_sequence then
        (if i < length byte_sequence - 1
            \<and> (byte_sequence ! i, byte_sequence ! (i + 1)) = pair
         then merge_loop byte_sequence pair new_token (i + 2) (new_sequence @ [new_token])
         else merge_loop byte_sequence pair new_token (i + 1)
                (new_sequence @ [byte_sequence ! i]))
      else new_sequence)"
  by pat_completeness auto
termination
  by (relation "measure (\<lambda>(bs, p, t, i, acc). length bs - i)") auto

declare merge_loop.simps [simp del]

definition merge_byte_pair :: "int list \<Rightarrow> pair \<Rightarrow> int \<Rightarrow> int list" where
  "merge_byte_pair byte_sequence pair new_token =
     merge_loop byte_sequence pair new_token 0 []"

text \<open>The rule of the specification, by recursion on the rest of the sequence: where
  the current and the next element are the pair, emit the new id and skip both; otherwise
  emit the current element and skip it.\<close>

fun apply_rule :: "int list \<Rightarrow> pair \<Rightarrow> int \<Rightarrow> int list" where
  "apply_rule (x # y # r) pair new_id =
     (if (x, y) = pair then new_id # apply_rule r pair new_id
      else x # apply_rule (y # r) pair new_id)"
| "apply_rule [x] pair new_id = [x]"
| "apply_rule [] pair new_id = []"

subsection \<open>UTF-8, as \<^verbatim>\<open>str.encode("utf-8")\<close> and \<^verbatim>\<open>bytes.decode("utf-8")\<close> do it\<close>

text \<open>These two are built into Python, not part of the repository; they are written
  out after the encoding's definition, with the strict error handler that both calls use
  by default. A code point is encodable unless it is a surrogate.\<close>

definition encodable :: "nat \<Rightarrow> bool" where
  "encodable c = (c < 0xD800 \<or> (0xDFFF < c \<and> c < 0x110000))"

definition encode_cp :: "nat \<Rightarrow> py_bytes" where
  "encode_cp c =
     (if c < 0x80 then [c]
      else if c < 0x800 then [0xC0 + c div 64, 0x80 + c mod 64]
      else if c < 0x10000 then
        [0xE0 + c div 4096, 0x80 + (c div 64) mod 64, 0x80 + c mod 64]
      else [0xF0 + c div 262144, 0x80 + (c div 4096) mod 64,
            0x80 + (c div 64) mod 64, 0x80 + c mod 64])"

definition utf8_bytes :: "py_str \<Rightarrow> py_bytes" where
  "utf8_bytes s = concat (map encode_cp s)"

definition str_encode :: "py_str \<Rightarrow> error + py_bytes" where
  "str_encode s = (if list_all encodable s then Inr (utf8_bytes s) else Inl UnicodeEncodeError)"

definition is_cont :: "nat \<Rightarrow> bool" where
  "is_cont b = (0x80 \<le> b \<and> b \<le> 0xBF)"

text \<open>The strict decoder: the lead byte fixes the length, every further byte is a
  continuation byte, and a sequence that is overlong, a surrogate or beyond
  \<open>0x10FFFF\<close> is refused. \<open>None\<close> is UnicodeDecodeError.\<close>

fun utf8_decode :: "py_bytes \<Rightarrow> py_str option" where
  "utf8_decode [] = Some []"
| "utf8_decode (b0 # bs) =
     (if b0 < 0x80 then map_option ((#) b0) (utf8_decode bs)
      else if 0xC0 \<le> b0 \<and> b0 \<le> 0xDF then
        (case bs of
           b1 # r \<Rightarrow>
             (let c = (b0 - 0xC0) * 64 + (b1 - 0x80)
              in if is_cont b1 \<and> 0x80 \<le> c
                 then map_option ((#) c) (utf8_decode r) else None)
         | _ \<Rightarrow> None)
      else if 0xE0 \<le> b0 \<and> b0 \<le> 0xEF then
        (case bs of
           b1 # b2 # r \<Rightarrow>
             (let c = (b0 - 0xE0) * 4096 + (b1 - 0x80) * 64 + (b2 - 0x80)
              in if is_cont b1 \<and> is_cont b2 \<and> 0x800 \<le> c \<and> encodable c
                 then map_option ((#) c) (utf8_decode r) else None)
         | _ \<Rightarrow> None)
      else if 0xF0 \<le> b0 \<and> b0 \<le> 0xF7 then
        (case bs of
           b1 # b2 # b3 # r \<Rightarrow>
             (let c = (b0 - 0xF0) * 262144 + (b1 - 0x80) * 4096
                        + (b2 - 0x80) * 64 + (b3 - 0x80)
              in if is_cont b1 \<and> is_cont b2 \<and> is_cont b3 \<and> 0x10000 \<le> c \<and> encodable c
                 then map_option ((#) c) (utf8_decode r) else None)
         | _ \<Rightarrow> None)
      else None)"

text \<open>\<^verbatim>\<open>bytes(xs)\<close> of a list of ints: every element must be in \<^verbatim>\<open>range(256)\<close>.\<close>

definition py_bytes_of :: "int list \<Rightarrow> error + py_bytes" where
  "py_bytes_of xs =
     (if list_all (\<lambda>t. 0 \<le> t \<and> t < 256) xs then Inr (map nat xs) else Inl ValueError)"

definition bytes_decode :: "py_bytes \<Rightarrow> error + py_str" where
  "bytes_decode bs = (case utf8_decode bs of None \<Rightarrow> Inl UnicodeDecodeError | Some s \<Rightarrow> Inr s)"

subsection \<open>Joining and splitting\<close>

text \<open>\<^verbatim>\<open>sep.join(xs)\<close>, for \<^verbatim>\<open>str\<close> and for \<^verbatim>\<open>bytes\<close>.\<close>

fun py_join :: "'a list \<Rightarrow> 'a list list \<Rightarrow> 'a list" where
  "py_join sep [] = []"
| "py_join sep [x] = x"
| "py_join sep (x # y # r) = x @ sep @ py_join sep (y # r)"

text \<open>\<^verbatim>\<open>text.split(sep)\<close>: the text is cut at the leftmost occurrence of the
  separator, and the search goes on behind it. \<open>cur\<close> is the piece being read. An empty
  separator raises ValueError.\<close>

fun split_from :: "'a list \<Rightarrow> 'a list \<Rightarrow> 'a list \<Rightarrow> 'a list list" where
  "split_from sep cur [] = [cur]"
| "split_from sep cur (c # cs) =
     (if prefix sep (c # cs) then cur # split_from sep [] (drop (length sep - 1) cs)
      else split_from sep (cur @ [c]) cs)"

definition py_split :: "'a list \<Rightarrow> 'a list \<Rightarrow> error + 'a list list" where
  "py_split text sep = (if sep = [] then Inl ValueError else Inr (split_from sep [] text))"

definition SEP_TOKEN :: py_str where
  "SEP_TOKEN = [0x5B, 0x53, 0x45, 0x50, 0x5D]"

definition SEP_TOKEN_BYTES :: py_bytes where
  "SEP_TOKEN_BYTES = utf8_bytes SEP_TOKEN"

definition split_on_sep :: "py_str \<Rightarrow> py_str \<Rightarrow> error + py_str list" where
  "split_on_sep decoded_text sep_token = py_split decoded_text sep_token"

subsection \<open>byte\_pair\_encoding\<close>

text \<open>\<^verbatim>\<open>max(xs)\<close> raises ValueError on an empty list.\<close>

definition py_max :: "int list \<Rightarrow> error + int" where
  "py_max xs = (case xs of [] \<Rightarrow> Inl ValueError | x # r \<Rightarrow> Inr (foldl max x r))"

text \<open>\<^verbatim>\<open>max(pairs, key=pairs.get)\<close> walks the keys in insertion order and replaces
  its candidate only by a key whose count is strictly greater: the oldest key among those
  of maximal count wins.\<close>

fun max_key_from :: "('k, int) dict \<Rightarrow> 'k \<Rightarrow> int \<Rightarrow> 'k" where
  "max_key_from [] best best_count = best"
| "max_key_from ((k, c) # d) best best_count =
     (if c > best_count then max_key_from d k c else max_key_from d best best_count)"

definition py_max_key :: "('k, int) dict \<Rightarrow> error + 'k" where
  "py_max_key d = (case d of [] \<Rightarrow> Inl ValueError | (k, c) # r \<Rightarrow> Inr (max_key_from r k c))"

record bpe_state =
  byte_text :: "int list"
  token_id :: int
  merge_map :: "(pair, int) dict"

text \<open>One pass through the body of \<^verbatim>\<open>for _ in range(num_merges)\<close>. \<open>Inr None\<close> is
  the \<^verbatim>\<open>break\<close>.\<close>

definition train_step :: "bpe_state \<Rightarrow> error + bpe_state option" where
  "train_step st =
     (let pairs = get_byte_pair_frequency (byte_text st) in
      if pairs = [] then Inr None
      else
        (case py_max_key pairs of
           Inl e \<Rightarrow> Inl e
         | Inr most_frequent_pair \<Rightarrow>
             (let st1 =
                (if \<not> dict_contains most_frequent_pair (merge_map st)
                 then st\<lparr>merge_map := dict_set most_frequent_pair (token_id st) (merge_map st),
                         token_id := token_id st + 1\<rparr>
                 else st)
              in (case dict_get (merge_map st1) most_frequent_pair of
                    Inl e \<Rightarrow> Inl e
                  | Inr new_token \<Rightarrow>
                      Inr (Some (st1\<lparr>byte_text :=
                        merge_byte_pair (byte_text st1) most_frequent_pair new_token\<rparr>))))))"

fun train :: "nat \<Rightarrow> bpe_state \<Rightarrow> error + bpe_state" where
  "train 0 st = Inr st"
| "train (Suc n) st =
     (case train_step st of
        Inl e \<Rightarrow> Inl e
      | Inr None \<Rightarrow> Inr st
      | Inr (Some st') \<Rightarrow> train n st')"

fun encode_texts :: "py_str list \<Rightarrow> error + py_bytes list" where
  "encode_texts [] = Inr []"
| "encode_texts (text # texts) =
     (case str_encode text of
        Inl e \<Rightarrow> Inl e
      | Inr b \<Rightarrow> (case encode_texts texts of Inl e \<Rightarrow> Inl e | Inr bs \<Rightarrow> Inr (b # bs)))"

text \<open>Lines 55 to 57: the joined corpus as a list of ints.\<close>

definition joined_bytes :: "py_str list \<Rightarrow> error + int list" where
  "joined_bytes texts =
     (case encode_texts texts of
        Inl e \<Rightarrow> Inl e
      | Inr encoded \<Rightarrow> Inr (map int (py_join SEP_TOKEN_BYTES encoded)))"

text \<open>\<^verbatim>\<open>range(num_merges)\<close> is empty for a negative \<^verbatim>\<open>num_merges\<close>.\<close>

definition byte_pair_encoding ::
  "py_str list \<Rightarrow> int \<Rightarrow> error + int list \<times> (pair, int) dict" where
  "byte_pair_encoding texts num_merges =
     (case joined_bytes texts of
        Inl e \<Rightarrow> Inl e
      | Inr bytes0 \<Rightarrow>
          (case py_max bytes0 of
             Inl e \<Rightarrow> Inl e
           | Inr m \<Rightarrow>
               (case train (nat num_merges)
                       \<lparr>byte_text = bytes0, token_id = m + 1, merge_map = []\<rparr> of
                  Inl e \<Rightarrow> Inl e
                | Inr st \<Rightarrow> Inr (byte_text st, merge_map st))))"

subsection \<open>decode\_byte\_pair\<close>

text \<open>\<^verbatim>\<open>{v: k for k, v in merge_map.items()}\<close>: where two keys carry the same value,
  the later one stays.\<close>

definition reverse_merge_map :: "(pair, int) dict \<Rightarrow> int \<rightharpoonup> pair" where
  "reverse_merge_map mmap = map_of (rev (map (\<lambda>(k, v). (v, k)) mmap))"

text \<open>The \<^verbatim>\<open>while stack\<close> loop. The stack is a Python list: \<^verbatim>\<open>pop\<close> takes its
  last element and \<^verbatim>\<open>append\<close> adds one behind it. The loop does not end on every
  input, so it returns an option: \<open>None\<close> when it runs forever.\<close>

partial_function (option) expand_loop ::
  "(int \<rightharpoonup> pair) \<Rightarrow> int list \<Rightarrow> int list \<Rightarrow> int list option" where
  "expand_loop rmap stack decoded_sequence =
     (if stack = [] then Some decoded_sequence
      else
        (let token = last stack; stack1 = butlast stack in
         case rmap token of
           Some p \<Rightarrow> expand_loop rmap (stack1 @ [snd p] @ [fst p]) decoded_sequence
         | None \<Rightarrow> expand_loop rmap stack1 (decoded_sequence @ [token])))"

declare expand_loop.simps [code]

definition decode_byte_pair :: "int list \<Rightarrow> (pair, int) dict \<Rightarrow> (error + py_str) option" where
  "decode_byte_pair encoded_sequence mmap =
     (case expand_loop (reverse_merge_map mmap) (rev encoded_sequence) [] of
        None \<Rightarrow> None
      | Some decoded_sequence \<Rightarrow>
          Some (case py_bytes_of decoded_sequence of
                  Inl e \<Rightarrow> Inl e
                | Inr bs \<Rightarrow> bytes_decode bs))"

subsection \<open>Notions used to state the properties\<close>

text \<open>The adjacent pairs \<open>(seq[i], seq[i+1])\<close> of a sequence, in order of \<open>i\<close>.\<close>

definition adjacent_pairs :: "'a list \<Rightarrow> ('a \<times> 'a) list" where
  "adjacent_pairs seq = zip seq (tl seq)"

text \<open>The number of occurrences of a pair that a scan from the left finds when it skips
  both elements of every occurrence it meets.\<close>

fun greedy_count :: "int list \<Rightarrow> pair \<Rightarrow> nat" where
  "greedy_count (x # y # r) pair =
     (if (x, y) = pair then Suc (greedy_count r pair) else greedy_count (y # r) pair)"
| "greedy_count [x] pair = 0"
| "greedy_count [] pair = 0"

text \<open>What a token stands for under an inverse merge map: a token outside the map's
  domain stands for itself, a token in it for what its first constituent stands for,
  followed by what its second does.\<close>

inductive expands :: "(int \<rightharpoonup> pair) \<Rightarrow> int \<Rightarrow> int list \<Rightarrow> bool" for rmap where
  leaf: "rmap t = None \<Longrightarrow> expands rmap t [t]"
| node: "rmap t = Some (a, b) \<Longrightarrow> expands rmap a as \<Longrightarrow> expands rmap b bs
           \<Longrightarrow> expands rmap t (as @ bs)"

code_pred (modes: i \<Rightarrow> i \<Rightarrow> o \<Rightarrow> bool as expansion_of) expands .

text \<open>What holds of the learner's state after every iteration, for a corpus \<open>orig\<close>
  whose first fresh id is \<open>t0\<close>: the keys of the merge map are distinct, its values are
  \<open>t0, t0 + 1, \<dots>\<close> in insertion order up to the id counter, every byte of the corpus is
  below \<open>t0\<close>, both constituents of an id are below the id, every token of the working
  sequence is below the id counter, and the working sequence stands for the corpus.\<close>

definition consistent :: "int \<Rightarrow> int list \<Rightarrow> bpe_state \<Rightarrow> bool" where
  "consistent t0 orig st \<longleftrightarrow>
     distinct (map fst (merge_map st))
     \<and> map snd (merge_map st) = map (\<lambda>i. t0 + int i) [0..<length (merge_map st)]
     \<and> token_id st = t0 + int (length (merge_map st))
     \<and> (\<forall>b \<in> set orig. b < t0)
     \<and> (\<forall>e \<in> set (merge_map st). fst (fst e) < snd e \<and> snd (fst e) < snd e)
     \<and> (\<forall>t \<in> set (byte_text st). t < token_id st)
     \<and> (\<exists>bss. list_all2 (expands (reverse_merge_map (merge_map st))) (byte_text st) bss
              \<and> concat bss = orig)"

text \<open>The number of positions of a text at which the separator starts.\<close>

fun occurrences :: "'a list \<Rightarrow> 'a list \<Rightarrow> nat" where
  "occurrences sep [] = 0"
| "occurrences sep (c # cs) = (if prefix sep (c # cs) then 1 else 0) + occurrences sep cs"

text \<open>The tokens that the expansion of a token meets: the token itself and, for every
  token met that the inverse map has an entry for, its two constituents.\<close>

inductive reaches :: "(int \<rightharpoonup> pair) \<Rightarrow> int \<Rightarrow> int \<Rightarrow> bool" for rmap s where
  self: "reaches rmap s s"
| first: "reaches rmap s t \<Longrightarrow> rmap t = Some (a, b) \<Longrightarrow> reaches rmap s a"
| second: "reaches rmap s t \<Longrightarrow> rmap t = Some (a, b) \<Longrightarrow> reaches rmap s b"

code_pred (modes: i \<Rightarrow> i \<Rightarrow> o \<Rightarrow> bool as tokens_reached) reaches .

section \<open>The merge applier\<close>

lemma merge_loop_drop:
  "i \<le> length bs \<Longrightarrow>
     merge_loop bs pair new i acc = acc @ apply_rule (drop i bs) pair new"
proof (induction bs pair new i acc rule: merge_loop.induct)
  case (1 bs pair new i acc)
  show ?case
  proof (cases "i < length bs")
    case False
    with "1.prems" show ?thesis
      by (simp add: merge_loop.simps)
  next
    case inside: True
    show ?thesis
    proof (cases "i < length bs - 1 \<and> (bs ! i, bs ! (i + 1)) = pair")
      case True
      then have d: "drop i bs = bs ! i # bs ! (i + 1) # drop (i + 2) bs"
        by (metis Cons_nth_drop_Suc Suc_eq_plus1 add_2_eq_Suc' inside less_diff_conv)
      from True have "i + 2 \<le> length bs" by arith
      with "1.IH"(1) [OF inside True] True d show ?thesis
        by (subst merge_loop.simps) (simp add: inside)
    next
      case False
      have d: "drop i bs = bs ! i # drop (i + 1) bs"
        using inside by (simp add: Cons_nth_drop_Suc)
      from inside have le: "i + 1 \<le> length bs" by arith
      have step: "apply_rule (drop i bs) pair new
                    = bs ! i # apply_rule (drop (i + 1) bs) pair new"
      proof (cases "drop (i + 1) bs")
        case Nil
        with d show ?thesis by simp
      next
        case (Cons y r)
        then have "i + 1 < length bs" by (cases "i + 1 < length bs") auto
        then have "y = bs ! (i + 1)"
          using Cons by (metis Cons_nth_drop_Suc list.inject)
        with False \<open>i + 1 < length bs\<close> d Cons show ?thesis by auto
      qed
      from "1.IH"(2) [OF inside False le] step False show ?thesis
        by (subst merge_loop.simps) (auto simp: inside)
    qed
  qed
qed

lemma merge_byte_pair_rule: "merge_byte_pair bs pair new = apply_rule bs pair new"
  by (simp add: merge_byte_pair_def merge_loop_drop)

section \<open>Adjacent pairs\<close>

lemma adjacent_pairs_length [simp]: "length (adjacent_pairs seq) = length seq - 1"
  by (simp add: adjacent_pairs_def)

lemma adjacent_pairs_nth:
  "Suc i < length seq \<Longrightarrow> adjacent_pairs seq ! i = (seq ! i, seq ! Suc i)"
  by (simp add: adjacent_pairs_def nth_tl)

lemma adjacent_pairs_Cons [simp]:
  "adjacent_pairs (x # y # r) = (x, y) # adjacent_pairs (y # r)"
  by (simp add: adjacent_pairs_def)

lemma adjacent_pairs_single [simp]: "adjacent_pairs [x] = []"
  by (simp add: adjacent_pairs_def)

lemma adjacent_pairs_Nil [simp]: "adjacent_pairs [] = []"
  by (simp add: adjacent_pairs_def)

lemma adjacent_pairs_by_index:
  "map (\<lambda>i. (seq ! i, seq ! Suc i)) [0..<length seq - Suc 0] = adjacent_pairs seq"
  by (rule nth_equalityI) (simp_all add: adjacent_pairs_nth)

lemma in_adjacent_pairs_iff:
  "p \<in> set (adjacent_pairs seq) \<longleftrightarrow> (\<exists>i. Suc i < length seq \<and> (seq ! i, seq ! Suc i) = p)"
proof
  assume "p \<in> set (adjacent_pairs seq)"
  then obtain i where "i < length (adjacent_pairs seq)" "adjacent_pairs seq ! i = p"
    by (auto simp: in_set_conv_nth)
  then show "\<exists>i. Suc i < length seq \<and> (seq ! i, seq ! Suc i) = p"
    by (auto simp: adjacent_pairs_nth intro!: exI [of _ i])
next
  assume "\<exists>i. Suc i < length seq \<and> (seq ! i, seq ! Suc i) = p"
  then obtain i where i: "Suc i < length seq" "(seq ! i, seq ! Suc i) = p" by blast
  then have "i < length (adjacent_pairs seq)" by simp
  then have "adjacent_pairs seq ! i \<in> set (adjacent_pairs seq)" by (rule nth_mem)
  with i show "p \<in> set (adjacent_pairs seq)" by (simp add: adjacent_pairs_nth)
qed

lemma count_adjacent_card:
  "count_list (adjacent_pairs seq) p
     = card {i. Suc i < length seq \<and> (seq ! i, seq ! Suc i) = p}"
proof -
  have "{i. i < length (adjacent_pairs seq) \<and> adjacent_pairs seq ! i = p}
          = {i. Suc i < length seq \<and> (seq ! i, seq ! Suc i) = p}"
    by (auto simp: adjacent_pairs_nth)
  then show ?thesis
    by (simp add: count_list_eq_length_filter length_filter_conv_card eq_commute [of p])
qed

section \<open>The pair frequency counter\<close>

lemma dict_incr_keys:
  "map fst (dict_incr k d) = (if k \<in> set (map fst d) then map fst d else map fst d @ [k])"
  by (induction d) (auto split: if_splits)

lemma dict_incr_distinct: "distinct (map fst d) \<Longrightarrow> distinct (map fst (dict_incr k d))"
  by (simp add: dict_incr_keys)

lemma map_of_dict_incr:
  "map_of (dict_incr k d) q =
     (if q = k then Some (case map_of d k of None \<Rightarrow> 1 | Some c \<Rightarrow> c + 1) else map_of d q)"
  by (induction d) auto

lemma foldl_dict_incr_distinct:
  "distinct (map fst d) \<Longrightarrow> distinct (map fst (foldl (\<lambda>d k. dict_incr k d) d ks))"
  by (induction ks arbitrary: d) (simp_all add: dict_incr_distinct)

lemma map_of_foldl_dict_incr:
  "map_of (foldl (\<lambda>d k. dict_incr k d) d ks) q =
     (case map_of d q of
        None \<Rightarrow> if count_list ks q = 0 then None else Some (int (count_list ks q))
      | Some c \<Rightarrow> Some (c + int (count_list ks q)))"
  by (induction ks arbitrary: d) (auto simp: map_of_dict_incr split: option.splits)

lemma frequency_foldl:
  "get_byte_pair_frequency seq = foldl (\<lambda>d k. dict_incr k d) [] (adjacent_pairs seq)"
proof -
  have "foldl (\<lambda>pairs i. dict_incr (f i) pairs) d is = foldl (\<lambda>d k. dict_incr k d) d (map f is)"
    for f :: "nat \<Rightarrow> pair" and d "is"
    by (induction "is" arbitrary: d) simp_all
  then show ?thesis
    unfolding get_byte_pair_frequency_def by (simp add: adjacent_pairs_by_index)
qed

lemma frequency_distinct: "distinct (map fst (get_byte_pair_frequency seq))"
  by (simp add: frequency_foldl foldl_dict_incr_distinct)

lemma frequency_lookup:
  "map_of (get_byte_pair_frequency seq) q =
     (if count_list (adjacent_pairs seq) q = 0 then None
      else Some (int (count_list (adjacent_pairs seq) q)))"
  by (simp add: frequency_foldl map_of_foldl_dict_incr)

lemma frequency_empty_iff: "get_byte_pair_frequency seq = [] \<longleftrightarrow> length seq < 2"
proof
  assume e: "get_byte_pair_frequency seq = []"
  show "length seq < 2"
  proof (rule ccontr)
    assume "\<not> length seq < 2"
    then have "0 < length (adjacent_pairs seq)" by simp
    then obtain p ps where "adjacent_pairs seq = p # ps" by (cases "adjacent_pairs seq") auto
    then have "map_of (get_byte_pair_frequency seq) p \<noteq> None"
      by (simp add: frequency_lookup)
    with e show False by simp
  qed
next
  assume "length seq < 2"
  then have "adjacent_pairs seq = []" by (cases seq) (auto simp: adjacent_pairs_def)
  then show "get_byte_pair_frequency seq = []" by (simp add: frequency_foldl)
qed

lemma frequency_of_555: "get_byte_pair_frequency [5, 5, 5] = [((5, 5), 2)]"
  by code_simp
lemma frequency_of_single: "get_byte_pair_frequency [1] = []"
  by code_simp
section \<open>Identity and progress of the applier\<close>

lemma apply_rule_id:
  "pair \<notin> set (adjacent_pairs bs) \<Longrightarrow> apply_rule bs pair new = bs"
  by (induction bs pair new rule: apply_rule.induct) auto

lemma apply_rule_length:
  "length (apply_rule bs pair new) + greedy_count bs pair = length bs"
  by (induction bs pair new rule: apply_rule.induct) auto

lemma greedy_count_pos:
  "pair \<in> set (adjacent_pairs bs) \<Longrightarrow> 0 < greedy_count bs pair"
proof (induction bs pair rule: greedy_count.induct)
  case (1 x y r pair)
  then show ?case by (cases "(x, y) = pair") auto
qed simp_all

section \<open>One iteration of the learner\<close>

lemma max_key_from_max:
  "\<exists>c'. (max_key_from d k c, c') \<in> set ((k, c) # d) \<and> (\<forall>e \<in> set ((k, c) # d). snd e \<le> c')"
proof (induction d arbitrary: k c)
  case Nil
  show ?case by simp
next
  case (Cons e d)
  obtain k1 c1 where e: "e = (k1, c1)" by (cases e)
  show ?case
  proof (cases "c1 > c")
    case True
    from Cons [of k1 c1] obtain c' where
      "(max_key_from d k1 c1, c') \<in> set ((k1, c1) # d)" "\<forall>e \<in> set ((k1, c1) # d). snd e \<le> c'"
      by blast
    with True e show ?thesis by (intro exI [of _ c']) auto
  next
    case False
    from Cons [of k c] obtain c' where
      "(max_key_from d k c, c') \<in> set ((k, c) # d)" "\<forall>e \<in> set ((k, c) # d). snd e \<le> c'"
      by blast
    with False e show ?thesis by (intro exI [of _ c']) auto
  qed
qed

lemma py_max_key_max:
  assumes "d \<noteq> []"
  shows "\<exists>k c. py_max_key d = Inr k \<and> (k, c) \<in> set d \<and> (\<forall>e \<in> set d. snd e \<le> c)"
proof -
  from assms obtain k c r where d: "d = (k, c) # r" by (cases d) auto
  from max_key_from_max [of r k c] d show ?thesis
    by (auto simp: py_max_key_def)
qed

lemma most_frequent_pair:
  assumes "2 \<le> length seq"
  shows "\<exists>p. py_max_key (get_byte_pair_frequency seq) = Inr p
           \<and> p \<in> set (adjacent_pairs seq)
           \<and> (\<forall>q. count_list (adjacent_pairs seq) q \<le> count_list (adjacent_pairs seq) p)"
proof -
  let ?d = "get_byte_pair_frequency seq"
  from assms have "?d \<noteq> []" by (simp add: frequency_empty_iff)
  from py_max_key_max [OF this] obtain p c where
    p: "py_max_key ?d = Inr p" "(p, c) \<in> set ?d" "\<forall>e \<in> set ?d. snd e \<le> c" by blast
  have look: "map_of ?d p = Some c"
    using p(2) frequency_distinct by (simp add: map_of_eq_Some_iff)
  then have c: "c = int (count_list (adjacent_pairs seq) p)" "count_list (adjacent_pairs seq) p \<noteq> 0"
    by (auto simp: frequency_lookup split: if_splits)
  have "count_list (adjacent_pairs seq) q \<le> count_list (adjacent_pairs seq) p" for q
  proof (cases "count_list (adjacent_pairs seq) q = 0")
    case True
    then show ?thesis by simp
  next
    case False
    then have "map_of ?d q = Some (int (count_list (adjacent_pairs seq) q))"
      by (simp add: frequency_lookup)
    then have "(q, int (count_list (adjacent_pairs seq) q)) \<in> set ?d"
      by (rule map_of_SomeD)
    with p(3) have "int (count_list (adjacent_pairs seq) q) \<le> c" by fastforce
    with c show ?thesis by simp
  qed
  moreover from c(2) have "p \<in> set (adjacent_pairs seq)"
    by (metis count_notin)
  ultimately show ?thesis using p(1) by blast
qed

lemma dict_set_new: "map_of d k = None \<Longrightarrow> dict_set k v d = d @ [(k, v)]"
  by (induction d) (auto split: if_splits)

lemma train_step_break:
  "length (byte_text st) < 2 \<Longrightarrow> train_step st = Inr None"
  by (simp add: train_step_def frequency_empty_iff)

lemma train_step_reuse:
  assumes "py_max_key (get_byte_pair_frequency (byte_text st)) = Inr p"
    and "2 \<le> length (byte_text st)" and "map_of (merge_map st) p = Some v"
  shows "train_step st = Inr (Some (st\<lparr>byte_text := merge_byte_pair (byte_text st) p v\<rparr>))"
proof -
  from assms(2) have "get_byte_pair_frequency (byte_text st) \<noteq> []"
    by (simp add: frequency_empty_iff)
  with assms(1,3) show ?thesis
    by (simp add: train_step_def dict_contains_def dict_get_def)
qed

lemma train_step_fresh:
  assumes "py_max_key (get_byte_pair_frequency (byte_text st)) = Inr p"
    and "2 \<le> length (byte_text st)" and "map_of (merge_map st) p = None"
  shows "train_step st =
           Inr (Some (st\<lparr>merge_map := merge_map st @ [(p, token_id st)],
                         token_id := token_id st + 1,
                         byte_text := merge_byte_pair (byte_text st) p (token_id st)\<rparr>))"
proof -
  from assms(2) have "get_byte_pair_frequency (byte_text st) \<noteq> []"
    by (simp add: frequency_empty_iff)
  with assms(1,3) show ?thesis
    by (simp add: train_step_def dict_contains_def dict_get_def dict_set_new Let_def map_add_def)
qed

lemma train_step_shrinks:
  assumes "train_step st = Inr (Some st')"
  shows "length (byte_text st') < length (byte_text st)"
proof -
  have len: "2 \<le> length (byte_text st)"
    using assms train_step_break [of st] by (cases "length (byte_text st) < 2") auto
  from most_frequent_pair [OF len] obtain p where
    p: "py_max_key (get_byte_pair_frequency (byte_text st)) = Inr p"
       "p \<in> set (adjacent_pairs (byte_text st))" by blast
  have short: "length (merge_byte_pair (byte_text st) p v) < length (byte_text st)" for v
    using apply_rule_length [of "byte_text st" p v] greedy_count_pos [OF p(2)]
    by (simp add: merge_byte_pair_rule)
  show ?thesis
  proof (cases "map_of (merge_map st) p")
    case None
    from train_step_fresh [OF p(1) len None] assms short show ?thesis by auto
  next
    case (Some v)
    from train_step_reuse [OF p(1) len Some] assms short show ?thesis by auto
  qed
qed

section \<open>Claims about the applier, the counter and one learner iteration\<close>

text \<open>C4. \<open>merge_byte_pair\<close> scans from the left: where the current and the next element
  are the pair it emits the new id and moves on by two, otherwise it emits the current
  element and moves on by one. It is the specification's rule \<open>apply_rule\<close>, and
  \<open>merge_byte_pair([7,7,7], (7,7), 300) = [300, 7]\<close>.\<close>

theorem merge_byte_pair_scan:
  "merge_byte_pair seq pair new_id = apply_rule seq pair new_id
   \<and> merge_byte_pair [] pair new_id = []
   \<and> merge_byte_pair [x] pair new_id = [x]
   \<and> merge_byte_pair (x # y # r) pair new_id =
       (if (x, y) = pair then new_id # merge_byte_pair r pair new_id
        else x # merge_byte_pair (y # r) pair new_id)
   \<and> merge_byte_pair [7, 7, 7] (7, 7) 300 = [300, 7]"
  by (simp add: merge_byte_pair_rule)

text \<open>C6. The keys of the returned mapping are distinct, each pair is mapped to the
  number of indices \<open>i\<close> with \<open>(seq[i], seq[i+1])\<close> equal to it (overlapping occurrences
  counted, a pair that does not occur is absent), the mapping is empty exactly when
  \<open>len(seq) < 2\<close>, \<open>count([5,5,5]) = {(5,5): 2}\<close> and \<open>count([1]) = {}\<close>.\<close>

theorem get_byte_pair_frequency_counts:
  "distinct (map fst (get_byte_pair_frequency seq))
   \<and> map_of (get_byte_pair_frequency seq) p =
       (let n = card {i. Suc i < length seq \<and> (seq ! i, seq ! Suc i) = p}
        in if n = 0 then None else Some (int n))
   \<and> (get_byte_pair_frequency seq = []) = (length seq < 2)
   \<and> get_byte_pair_frequency [5, 5, 5] = [((5, 5), 2)]
   \<and> get_byte_pair_frequency [1] = []"
  using frequency_distinct [of seq] frequency_lookup [of seq p] frequency_empty_iff [of seq]
  by (simp add: count_adjacent_card frequency_of_555 frequency_of_single)

text \<open>C10. A pair that occurs at no adjacent position leaves the sequence as it is; a
  pair that occurs makes the result strictly shorter, by the number of occurrences a
  left-to-right scan without overlaps finds; and every executed iteration of the learner
  strictly shortens the working sequence.\<close>

theorem merge_byte_pair_identity_and_progress:
  "((\<nexists>i. Suc i < length seq \<and> (seq ! i, seq ! Suc i) = pair)
      \<longrightarrow> merge_byte_pair seq pair new_id = seq)
   \<and> ((\<exists>i. Suc i < length seq \<and> (seq ! i, seq ! Suc i) = pair)
      \<longrightarrow> length (merge_byte_pair seq pair new_id) < length seq)
   \<and> length (merge_byte_pair seq pair new_id) + greedy_count seq pair = length seq
   \<and> (\<forall>st st'. train_step st = Inr (Some st')
         \<longrightarrow> length (byte_text st') < length (byte_text st))"
proof -
  have id: "merge_byte_pair seq pair new_id = seq"
    if "\<nexists>i. Suc i < length seq \<and> (seq ! i, seq ! Suc i) = pair"
    using that by (simp add: merge_byte_pair_rule apply_rule_id in_adjacent_pairs_iff)
  have len: "length (merge_byte_pair seq pair new_id) + greedy_count seq pair = length seq"
    by (simp add: merge_byte_pair_rule apply_rule_length)
  have less: "length (merge_byte_pair seq pair new_id) < length seq"
    if "\<exists>i. Suc i < length seq \<and> (seq ! i, seq ! Suc i) = pair"
  proof -
    from that have "pair \<in> set (adjacent_pairs seq)" by (simp add: in_adjacent_pairs_iff)
    from greedy_count_pos [OF this] len show ?thesis by arith
  qed
  from id len less train_step_shrinks show ?thesis by blast
qed

theorem merge_byte_pair_identity_and_progress_witness:
  "(\<nexists>i. Suc i < length [1, 2, 3 :: int] \<and> ([1, 2, 3] ! i, [1, 2, 3] ! Suc i) = (7 :: int, 7 :: int))
   \<and> merge_byte_pair [1, 2, 3] (7, 7) 300 = [1, 2, 3]
   \<and> (\<exists>i. Suc i < length [7, 7, 7 :: int] \<and> ([7, 7, 7] ! i, [7, 7, 7] ! Suc i) = (7 :: int, 7 :: int))
   \<and> length (merge_byte_pair [7, 7, 7] (7, 7) 300) < length [7, 7, 7 :: int]
   \<and> train_step \<lparr>byte_text = [1, 2, 1, 2], token_id = 3, merge_map = []\<rparr>
        = Inr (Some \<lparr>byte_text = [3, 3], token_id = 4, merge_map = [((1, 2), 3)]\<rparr>)
   \<and> length (byte_text \<lparr>byte_text = [3, 3], token_id = 4, merge_map = [((1, 2), 3)]\<rparr>)
        < length (byte_text \<lparr>byte_text = [1, 2, 1, 2], token_id = 3, merge_map = []\<rparr>)"
proof -
  have a: "\<nexists>i. Suc i < length [1, 2, 3 :: int] \<and> ([1, 2, 3] ! i, [1, 2, 3] ! Suc i) = (7 :: int, 7 :: int)"
    by (auto simp: nth_Cons split: nat.splits)
  have b: "\<exists>i. Suc i < length [7, 7, 7 :: int] \<and> ([7, 7, 7] ! i, [7, 7, 7] ! Suc i) = (7 :: int, 7 :: int)"
    by (rule exI [of _ 0]) simp
  have c: "train_step \<lparr>byte_text = [1, 2, 1, 2], token_id = 3, merge_map = []\<rparr>
        = Inr (Some \<lparr>byte_text = [3, 3], token_id = 4, merge_map = [((1, 2), 3)]\<rparr>)"
    by code_simp
  from a b c
    merge_byte_pair_identity_and_progress [of "[1, 2, 3]" "(7, 7)" 300]
    merge_byte_pair_identity_and_progress [of "[7, 7, 7]" "(7, 7)" 300]
  show ?thesis by blast
qed

text \<open>C5. An iteration raises nothing and breaks exactly when the sequence has fewer
  than two elements. Otherwise the pair it selects is an adjacent pair of the current
  sequence whose number of occurrences is maximal; if the merge map has an id for it, that
  id is used and neither the map nor the id counter changes; if not, the pair is recorded
  with the current value of the counter and the counter goes up by one.\<close>

theorem train_step_selects_and_allocates:
  "(\<exists>r. train_step st = Inr r)
   \<and> (train_step st = Inr None) = (length (byte_text st) < 2)
   \<and> (\<forall>st'. train_step st = Inr (Some st') \<longrightarrow>
        (\<exists>p. py_max_key (get_byte_pair_frequency (byte_text st)) = Inr p
           \<and> (\<exists>i. Suc i < length (byte_text st)
                    \<and> (byte_text st ! i, byte_text st ! Suc i) = p)
           \<and> (\<forall>q. card {i. Suc i < length (byte_text st)
                              \<and> (byte_text st ! i, byte_text st ! Suc i) = q}
                   \<le> card {i. Suc i < length (byte_text st)
                              \<and> (byte_text st ! i, byte_text st ! Suc i) = p})
           \<and> (case map_of (merge_map st) p of
                 Some v \<Rightarrow>
                   merge_map st' = merge_map st \<and> token_id st' = token_id st
                   \<and> byte_text st' = merge_byte_pair (byte_text st) p v
               | None \<Rightarrow>
                   merge_map st' = merge_map st @ [(p, token_id st)]
                   \<and> token_id st' = token_id st + 1
                   \<and> byte_text st' = merge_byte_pair (byte_text st) p (token_id st))))"
proof (cases "length (byte_text st) < 2")
  case True
  then show ?thesis by (simp add: train_step_break)
next
  case False
  then have len: "2 \<le> length (byte_text st)" by simp
  from most_frequent_pair [OF len] obtain p where
    p: "py_max_key (get_byte_pair_frequency (byte_text st)) = Inr p"
       "p \<in> set (adjacent_pairs (byte_text st))"
       "\<forall>q. count_list (adjacent_pairs (byte_text st)) q
              \<le> count_list (adjacent_pairs (byte_text st)) p" by blast
  show ?thesis
  proof (cases "map_of (merge_map st) p")
    case None
    from train_step_fresh [OF p(1) len None] p False None show ?thesis
      by (auto simp: in_adjacent_pairs_iff count_adjacent_card)
  next
    case (Some v)
    from train_step_reuse [OF p(1) len Some] p False Some show ?thesis
      by (auto simp: in_adjacent_pairs_iff count_adjacent_card)
  qed
qed

theorem train_step_selects_and_allocates_witness:
  "train_step \<lparr>byte_text = [1, 2, 1, 2], token_id = 3, merge_map = []\<rparr>
     = Inr (Some \<lparr>byte_text = [3, 3], token_id = 4, merge_map = [((1, 2), 3)]\<rparr>)
   \<and> (\<exists>p. py_max_key (get_byte_pair_frequency [1, 2, 1, 2]) = Inr p
          \<and> map_of ([] :: (pair, int) dict) p = None
          \<and> [((1, 2), 3)] = [] @ [(p, 3 :: int)]
          \<and> [3, 3] = merge_byte_pair [1, 2, 1, 2] p 3)"
proof -
  have c: "train_step \<lparr>byte_text = [1, 2, 1, 2], token_id = 3, merge_map = []\<rparr>
        = Inr (Some \<lparr>byte_text = [3, 3], token_id = 4, merge_map = [((1, 2), 3)]\<rparr>)"
    by code_simp
  from train_step_selects_and_allocates
         [of "\<lparr>byte_text = [1, 2, 1, 2], token_id = 3, merge_map = []\<rparr>"] c
  show ?thesis by auto
qed

section \<open>UTF-8 round trips\<close>

lemma encode_cp_bytes: "c < 0x110000 \<Longrightarrow> b \<in> set (encode_cp c) \<Longrightarrow> b < 256"
proof -
  assume c: "c < 0x110000" and b: "b \<in> set (encode_cp c)"
  have m: "x mod 64 < 64" for x :: nat by simp
  have d1: "c div 64 < 32" if "c < 0x800" using that by (simp add: less_mult_imp_div_less)
  have d2: "c div 4096 < 16" if "c < 0x10000" using that by (simp add: less_mult_imp_div_less)
  have d3: "c div 262144 < 8" using c by (simp add: less_mult_imp_div_less)
  from b consider "c < 0x80" "b = c" | "c < 0x800" "b = 0xC0 + c div 64"
    | "c < 0x10000" "b = 0xE0 + c div 4096" | "b = 0xF0 + c div 262144"
    | x where "b = 0x80 + x mod 64"
    by (auto simp: encode_cp_def split: if_splits)
  then show ?thesis
  proof cases
    case 1 then show ?thesis by simp
  next
    case 2 with d1 show ?thesis by simp
  next
    case 3 with d2 show ?thesis by simp
  next
    case 4 with d3 show ?thesis by simp
  next
    case 5 with m [of x] show ?thesis by simp
  qed
qed

lemma digits3: "(c::nat) div 4096 * 4096 + c div 64 mod 64 * 64 + c mod 64 = c"
proof -
  define q where "q = c div 64"
  have "c div 4096 = q div 64"
    using div_mult2_eq [of c 64 64] by (simp add: q_def)
  moreover have "(q div 64 * 64 + q mod 64) * 64 = q * 64" by simp
  then have "q div 64 * 4096 + q mod 64 * 64 = q * 64"
    by (simp only: add_mult_distrib mult.assoc)
  moreover have "q * 64 + c mod 64 = c" by (simp add: q_def)
  ultimately show ?thesis by (simp add: q_def)
qed

lemma digits4:
  "(c::nat) div 262144 * 262144 + c div 4096 mod 64 * 4096 + c div 64 mod 64 * 64 + c mod 64 = c"
proof -
  define q where "q = c div 4096"
  have "c div 262144 = q div 64"
    using div_mult2_eq [of c 4096 64] by (simp add: q_def)
  moreover have "(q div 64 * 64 + q mod 64) * 4096 = q * 4096" by simp
  then have "q div 64 * 262144 + q mod 64 * 4096 = q * 4096"
    by (simp only: add_mult_distrib mult.assoc)
  moreover have "c mod 4096 = c div 64 mod 64 * 64 + c mod 64"
    using mod_mult2_eq [of c 64 64] by simp
  moreover have "q * 4096 + c mod 4096 = c" by (simp add: q_def)
  ultimately show ?thesis by (simp add: q_def)
qed

lemma decode_encode_cp:
  assumes "encodable c"
  shows "utf8_decode (encode_cp c @ rest) = map_option ((#) c) (utf8_decode rest)"
proof -
  have m: "x mod 64 \<le> 63" for x :: nat
    using mod_less_divisor [of 64 x] by simp
  consider "c < 0x80" | "0x80 \<le> c" "c < 0x800" | "0x800 \<le> c" "c < 0x10000"
    | "0x10000 \<le> c" "c < 0x110000"
    using assms unfolding encodable_def by linarith
  then show ?thesis
  proof cases
    case 1
    then show ?thesis by (simp add: encode_cp_def)
  next
    case 2
    then have "c div 64 < 32" by (simp add: less_mult_imp_div_less)
    then have "c div 64 \<le> 31" by simp
    with 2 m [of c] show ?thesis
      by (simp add: encode_cp_def is_cont_def)
  next
    case 3
    then have "c div 4096 < 16" by (simp add: less_mult_imp_div_less)
    then have "c div 4096 \<le> 15" by simp
    with 3 assms m [of c] m [of "c div 64"] digits3 [of c] show ?thesis
      by (simp add: encode_cp_def is_cont_def)
  next
    case 4
    then have "c div 262144 < 8" by (simp add: less_mult_imp_div_less)
    then have "c div 262144 \<le> 7" by simp
    with 4 assms m [of c] m [of "c div 64"] m [of "c div 4096"] digits4 [of c] show ?thesis
      by (simp add: encode_cp_def is_cont_def)
  qed
qed

lemma decode_utf8_bytes: "list_all encodable s \<Longrightarrow> utf8_decode (utf8_bytes s) = Some s"
  by (induction s) (simp_all add: utf8_bytes_def decode_encode_cp)

lemma utf8_bytes_append: "utf8_bytes (s @ t) = utf8_bytes s @ utf8_bytes t"
  by (simp add: utf8_bytes_def)

lemma utf8_bytes_lt_256:
  assumes "list_all encodable s" "b \<in> set (utf8_bytes s)"
  shows "b < 256"
proof -
  from assms(2) obtain c where c: "c \<in> set s" "b \<in> set (encode_cp c)"
    by (auto simp: utf8_bytes_def)
  with assms(1) have "c < 0x110000" by (auto simp: list_all_iff encodable_def)
  from encode_cp_bytes [OF this c(2)] show ?thesis .
qed

lemma div_mod_digit: "y < (n::nat) \<Longrightarrow> (x * n + y) div n = x \<and> (x * n + y) mod n = y"
  by simp

lemma encode_cp_2:
  assumes "0xC0 \<le> b0" "b0 \<le> 0xDF" "is_cont b1" "0x80 \<le> (b0 - 0xC0) * 64 + (b1 - 0x80)"
  shows "encode_cp ((b0 - 0xC0) * 64 + (b1 - 0x80)) = [b0, b1]"
proof -
  define x y where "x = b0 - 0xC0" and "y = b1 - 0x80"
  have b: "b0 = 0xC0 + x" "b1 = 0x80 + y" and r: "x < 32" "y < 64"
    using assms(1-3) by (auto simp: x_def y_def is_cont_def)
  from r have "x * 64 + y < 0x800" by simp
  with assms(4) div_mod_digit [OF r(2), of x] show ?thesis
    unfolding x_def [symmetric] y_def [symmetric] by (simp add: encode_cp_def b)
qed

lemma encode_cp_3:
  assumes "0xE0 \<le> b0" "b0 \<le> 0xEF" "is_cont b1" "is_cont b2"
    "0x800 \<le> (b0 - 0xE0) * 4096 + (b1 - 0x80) * 64 + (b2 - 0x80)"
  shows "encode_cp ((b0 - 0xE0) * 4096 + (b1 - 0x80) * 64 + (b2 - 0x80)) = [b0, b1, b2]"
proof -
  define x y z where "x = b0 - 0xE0" and "y = b1 - 0x80" and "z = b2 - 0x80"
  have b: "b0 = 0xE0 + x" "b1 = 0x80 + y" "b2 = 0x80 + z" and r: "x < 16" "y < 64" "z < 64"
    using assms(1-4) by (auto simp: x_def y_def z_def is_cont_def)
  define c where "c = x * 4096 + y * 64 + z"
  have c64: "c = (x * 64 + y) * 64 + z" by (simp add: c_def add_mult_distrib)
  from r have lt: "c < 0x10000" by (simp add: c_def)
  from r have "y * 64 + z < 4096" by simp
  from div_mod_digit [OF this, of x] have d1: "c div 4096 = x" by (simp add: c_def add.assoc)
  from div_mod_digit [OF r(3), of "x * 64 + y"] have d2: "c div 64 = x * 64 + y" "c mod 64 = z"
    by (simp_all add: c64)
  from div_mod_digit [OF r(2), of x] d2 have d3: "c div 64 mod 64 = y" by simp
  from assms(5) have "0x800 \<le> c" by (simp add: c_def x_def y_def z_def)
  with lt d1 d2 d3 have "encode_cp c = [b0, b1, b2]" by (simp add: encode_cp_def b)
  then show ?thesis by (simp add: c_def x_def y_def z_def)
qed

lemma encode_cp_4:
  assumes "0xF0 \<le> b0" "b0 \<le> 0xF7" "is_cont b1" "is_cont b2" "is_cont b3"
    "0x10000 \<le> (b0 - 0xF0) * 262144 + (b1 - 0x80) * 4096 + (b2 - 0x80) * 64 + (b3 - 0x80)"
  shows "encode_cp ((b0 - 0xF0) * 262144 + (b1 - 0x80) * 4096 + (b2 - 0x80) * 64 + (b3 - 0x80))
           = [b0, b1, b2, b3]"
proof -
  define x y z w where "x = b0 - 0xF0" and "y = b1 - 0x80" and "z = b2 - 0x80"
    and "w = b3 - 0x80"
  have b: "b0 = 0xF0 + x" "b1 = 0x80 + y" "b2 = 0x80 + z" "b3 = 0x80 + w"
    and r: "x < 8" "y < 64" "z < 64" "w < 64"
    using assms(1-5) by (auto simp: x_def y_def z_def w_def is_cont_def)
  define c where "c = x * 262144 + y * 4096 + z * 64 + w"
  have c64: "c = ((x * 64 + y) * 64 + z) * 64 + w" by (simp add: c_def add_mult_distrib)
  have c4096: "c = (x * 64 + y) * 4096 + (z * 64 + w)" by (simp add: c_def add_mult_distrib)
  from r have "y * 4096 + z * 64 + w < 262144" by simp
  from div_mod_digit [OF this, of x] have d1: "c div 262144 = x" by (simp add: c_def add.assoc)
  from r have "z * 64 + w < 4096" by simp
  from div_mod_digit [OF this, of "x * 64 + y"] have d2: "c div 4096 = x * 64 + y"
    by (simp add: c4096)
  from div_mod_digit [OF r(2), of x] d2 have d3: "c div 4096 mod 64 = y" by simp
  from div_mod_digit [OF r(4), of "(x * 64 + y) * 64 + z"]
  have d4: "c div 64 = (x * 64 + y) * 64 + z" "c mod 64 = w" by (simp_all add: c64)
  from div_mod_digit [OF r(3), of "x * 64 + y"] d4 have d5: "c div 64 mod 64 = z" by simp
  from assms(6) have "0x10000 \<le> c" by (simp add: c_def x_def y_def z_def w_def)
  with d1 d3 d4 d5 have "encode_cp c = [b0, b1, b2, b3]" by (simp add: encode_cp_def b)
  then show ?thesis by (simp add: c_def x_def y_def z_def w_def)
qed

lemma decode_head:
  assumes "utf8_decode (b0 # bs) = Some s"
  shows "\<exists>c rest s'. b0 # bs = encode_cp c @ rest \<and> s = c # s'
            \<and> utf8_decode rest = Some s' \<and> length rest \<le> length bs"
proof -
  consider "b0 < 0x80" | "0xC0 \<le> b0" "b0 \<le> 0xDF" | "0xE0 \<le> b0" "b0 \<le> 0xEF"
    | "0xF0 \<le> b0" "b0 \<le> 0xF7"
    using assms by (auto split: if_splits)
  then show ?thesis
  proof cases
    case 1
    with assms obtain s' where "utf8_decode bs = Some s'" "s = b0 # s'" by auto
    with 1 show ?thesis
      by (intro exI [of _ b0] exI [of _ bs] exI [of _ s']) (simp add: encode_cp_def)
  next
    case 2
    with assms obtain b1 r where bs: "bs = b1 # r" by (cases bs) auto
    define c where "c = (b0 - 0xC0) * 64 + (b1 - 0x80)"
    from assms 2 bs have ok: "is_cont b1" "0x80 \<le> c"
      and "map_option ((#) c) (utf8_decode r) = Some s"
      by (auto simp: c_def Let_def split: if_splits)
    then obtain s' where s': "utf8_decode r = Some s'" "s = c # s'" by auto
    from encode_cp_2 [OF 2 ok(1)] ok(2) have "encode_cp c = [b0, b1]" by (simp add: c_def)
    with s' bs show ?thesis
      by (intro exI [of _ c] exI [of _ r] exI [of _ s']) simp
  next
    case 3
    with assms obtain b1 b2 r where bs: "bs = b1 # b2 # r"
      by (cases bs; cases "tl bs") auto
    define c where "c = (b0 - 0xE0) * 4096 + (b1 - 0x80) * 64 + (b2 - 0x80)"
    from assms 3 bs have ok: "is_cont b1" "is_cont b2" "0x800 \<le> c"
      and "map_option ((#) c) (utf8_decode r) = Some s"
      by (auto simp: c_def Let_def split: if_splits)
    then obtain s' where s': "utf8_decode r = Some s'" "s = c # s'" by auto
    from encode_cp_3 [OF 3 ok(1,2)] ok(3) have "encode_cp c = [b0, b1, b2]"
      by (simp add: c_def)
    with s' bs show ?thesis
      by (intro exI [of _ c] exI [of _ r] exI [of _ s']) simp
  next
    case 4
    with assms obtain b1 b2 b3 r where bs: "bs = b1 # b2 # b3 # r"
      by (cases bs; cases "tl bs"; cases "tl (tl bs)") auto
    define c where
      "c = (b0 - 0xF0) * 262144 + (b1 - 0x80) * 4096 + (b2 - 0x80) * 64 + (b3 - 0x80)"
    from assms 4 bs have ok: "is_cont b1" "is_cont b2" "is_cont b3" "0x10000 \<le> c"
      and "map_option ((#) c) (utf8_decode r) = Some s"
      by (auto simp: c_def Let_def split: if_splits)
    then obtain s' where s': "utf8_decode r = Some s'" "s = c # s'" by auto
    from encode_cp_4 [OF 4 ok(1,2,3)] ok(4) have "encode_cp c = [b0, b1, b2, b3]"
      by (simp add: c_def)
    with s' bs show ?thesis
      by (intro exI [of _ c] exI [of _ r] exI [of _ s']) simp
  qed
qed

lemma encode_decode: "utf8_decode bs = Some s \<Longrightarrow> utf8_bytes s = bs"
proof (induction bs arbitrary: s rule: length_induct)
  case (1 bs)
  show ?case
  proof (cases bs)
    case Nil
    with "1.prems" show ?thesis by (simp add: utf8_bytes_def)
  next
    case (Cons b0 bs')
    with "1.prems" decode_head [of b0 bs' s] obtain c rest s' where
      h: "bs = encode_cp c @ rest" "s = c # s'" "utf8_decode rest = Some s'"
         "length rest \<le> length bs'" by auto
    from h(4) Cons have "length rest < length bs" by simp
    with "1.IH" h(3) have "utf8_bytes s' = rest" by blast
    with h(1,2) show ?thesis by (simp add: utf8_bytes_def)
  qed
qed

section \<open>The expansion loop of the decoder\<close>

lemma expand_loop_empty [simp]: "expand_loop rmap [] decoded = Some decoded"
  by (subst expand_loop.simps) simp

lemma expand_loop_pop_raw:
  "rmap t = None \<Longrightarrow> expand_loop rmap (stack @ [t]) decoded = expand_loop rmap stack (decoded @ [t])"
  by (subst expand_loop.simps) simp

lemma expand_loop_pop_composite:
  "rmap t = Some (a, b) \<Longrightarrow>
     expand_loop rmap (stack @ [t]) decoded = expand_loop rmap (stack @ [b] @ [a]) decoded"
  by (subst expand_loop.simps) simp

lemma expand_loop_token:
  "expands rmap t bs \<Longrightarrow>
     expand_loop rmap (stack @ [t]) decoded = expand_loop rmap stack (decoded @ bs)"
proof (induction arbitrary: stack decoded rule: expands.induct)
  case (leaf t)
  then show ?case by (simp add: expand_loop_pop_raw)
next
  case (node t a b as bs)
  have "expand_loop rmap (stack @ [t]) decoded = expand_loop rmap ((stack @ [b]) @ [a]) decoded"
    using node.hyps(1) by (simp add: expand_loop_pop_composite)
  also have "\<dots> = expand_loop rmap (stack @ [b]) (decoded @ as)"
    by (rule node.IH(1))
  also have "\<dots> = expand_loop rmap stack ((decoded @ as) @ bs)"
    by (rule node.IH(2))
  finally show ?case by simp
qed

lemma expand_loop_all:
  "list_all2 (expands rmap) ts bss \<Longrightarrow>
     expand_loop rmap (rev ts) decoded = Some (decoded @ concat bss)"
proof (induction arbitrary: decoded rule: list_all2_induct)
  case Nil
  show ?case by simp
next
  case (Cons t ts bs bss)
  from expand_loop_token [OF Cons.hyps(1), of "rev ts" decoded] Cons.IH [of "decoded @ bs"]
  show ?case by simp
qed

lemma expands_empty_map: "list_all2 (expands Map.empty) ts (map (\<lambda>t. [t]) ts)"
  by (induction ts) (auto intro: expands.leaf)

lemma concat_singletons: "concat (map (\<lambda>t. [t]) ts) = ts"
  by (induction ts) auto

lemma expand_loop_no_merges: "expand_loop Map.empty (rev ts) [] = Some ts"
  using expand_loop_all [OF expands_empty_map, of ts "[]"] by (simp add: concat_singletons)

lemma decode_no_merges:
  "decode_byte_pair seq [] =
     Some (case py_bytes_of seq of Inl e \<Rightarrow> Inl e | Inr bs \<Rightarrow> bytes_decode bs)"
  by (simp add: decode_byte_pair_def reverse_merge_map_def expand_loop_no_merges)

section \<open>The learner keeps its state consistent\<close>

lemma apply_rule_expands:
  "rmap v = Some p \<Longrightarrow> list_all2 (expands rmap) seq bss \<Longrightarrow>
     \<exists>bss'. list_all2 (expands rmap) (apply_rule seq p v) bss' \<and> concat bss' = concat bss"
proof (induction seq p v arbitrary: bss rule: apply_rule.induct)
  case (1 x y r p v)
  from "1.prems"(2) obtain bx "by" br where
    bss: "bss = bx # by # br" and ex: "expands rmap x bx" "expands rmap y by"
    and rest: "list_all2 (expands rmap) r br"
    by (auto simp: list_all2_Cons1)
  show ?case
  proof (cases "(x, y) = p")
    case True
    from "1.IH"(1) [OF True "1.prems"(1) rest] obtain bss' where
      b: "list_all2 (expands rmap) (apply_rule r p v) bss'" "concat bss' = concat br"
      by blast
    from True "1.prems"(1) have "rmap v = Some (x, y)" by simp
    from expands.node [OF this ex] have "expands rmap v (bx @ by)" .
    with b True bss show ?thesis
      by (intro exI [of _ "(bx @ by) # bss'"]) simp
  next
    case False
    from rest ex(2) have "list_all2 (expands rmap) (y # r) (by # br)" by simp
    from "1.IH"(2) [OF False "1.prems"(1) this] obtain bss' where
      b: "list_all2 (expands rmap) (apply_rule (y # r) p v) bss'"
         "concat bss' = concat (by # br)"
      by blast
    with False ex(1) bss show ?thesis
      by (intro exI [of _ "bx # bss'"]) simp
  qed
qed auto

lemma set_apply_rule: "set (apply_rule seq p v) \<subseteq> insert v (set seq)"
  by (induction seq p v rule: apply_rule.induct) auto

lemma adjacent_pairs_members:
  "(a, b) \<in> set (adjacent_pairs seq) \<Longrightarrow> a \<in> set seq \<and> b \<in> set seq"
  unfolding adjacent_pairs_def
  by (metis in_set_zipE list.sel(2) list.set_sel(2))

lemma reverse_merge_map_SomeD:
  "reverse_merge_map mm v = Some p \<Longrightarrow> (p, v) \<in> set mm"
  unfolding reverse_merge_map_def by (auto dest!: map_of_SomeD)

lemma reverse_merge_map_Some:
  assumes "distinct (map snd mm)" "(p, v) \<in> set mm"
  shows "reverse_merge_map mm v = Some p"
proof -
  have "map fst (rev (map (\<lambda>(k, v). (v, k)) mm)) = rev (map snd mm)"
    by (simp add: rev_map case_prod_unfold comp_def)
  with assms(1) have "distinct (map fst (rev (map (\<lambda>(k, v). (v, k)) mm)))" by simp
  moreover from assms(2) have "(v, p) \<in> set (rev (map (\<lambda>(k, v). (v, k)) mm))" by force
  ultimately show ?thesis
    unfolding reverse_merge_map_def by (simp only: map_of_eq_Some_iff)
qed

lemma reverse_merge_map_append:
  "reverse_merge_map (mm @ [(p, v)]) = (reverse_merge_map mm)(v \<mapsto> p)"
  by (simp add: reverse_merge_map_def)

lemma expands_fresh:
  assumes "expands rmap t bs" "t < v"
    and "\<And>x a b. rmap x = Some (a, b) \<Longrightarrow> a < x \<and> b < x"
  shows "expands (rmap(v \<mapsto> p)) t bs"
  using assms(1,2)
proof (induction rule: expands.induct)
  case (leaf t)
  then show ?case by (intro expands.leaf) simp
next
  case (node t a b as bs)
  from assms(3) [OF node.hyps(1)] node.prems have "a < v" "b < v" by simp_all
  with node.IH have "expands (rmap(v \<mapsto> p)) a as" "expands (rmap(v \<mapsto> p)) b bs" by blast+
  moreover from node.hyps(1) node.prems have "(rmap(v \<mapsto> p)) t = Some (a, b)" by simp
  ultimately show ?case by (rule expands.node [rotated 1])
qed

lemma consistentD:
  assumes "consistent t0 orig st"
  shows "distinct (map fst (merge_map st))"
    and "map snd (merge_map st) = map (\<lambda>i. t0 + int i) [0..<length (merge_map st)]"
    and "token_id st = t0 + int (length (merge_map st))"
    and "\<forall>b \<in> set orig. b < t0"
    and "\<forall>e \<in> set (merge_map st). fst (fst e) < snd e \<and> snd (fst e) < snd e"
    and "\<forall>t \<in> set (byte_text st). t < token_id st"
    and "\<exists>bss. list_all2 (expands (reverse_merge_map (merge_map st))) (byte_text st) bss
              \<and> concat bss = orig"
  using assms unfolding consistent_def by blast+

lemma consistentI:
  assumes "distinct (map fst (merge_map st))"
    and "map snd (merge_map st) = map (\<lambda>i. t0 + int i) [0..<length (merge_map st)]"
    and "token_id st = t0 + int (length (merge_map st))"
    and "\<forall>b \<in> set orig. b < t0"
    and "\<forall>e \<in> set (merge_map st). fst (fst e) < snd e \<and> snd (fst e) < snd e"
    and "\<forall>t \<in> set (byte_text st). t < token_id st"
    and "list_all2 (expands (reverse_merge_map (merge_map st))) (byte_text st) bss"
    and "concat bss = orig"
  shows "consistent t0 orig st"
  using assms unfolding consistent_def by blast

lemma consistent_values:
  assumes "consistent t0 orig st"
  shows "distinct (map snd (merge_map st))"
    and "v \<in> snd ` set (merge_map st) \<Longrightarrow> t0 \<le> v \<and> v < token_id st"
proof -
  let ?n = "length (merge_map st)"
  note m = consistentD(2) [OF assms] and t = consistentD(3) [OF assms]
  have "inj_on (\<lambda>i. t0 + int i) (set [0..<?n])" by (simp add: inj_on_def)
  then have "distinct (map (\<lambda>i. t0 + int i) [0..<?n])" by (simp add: distinct_map)
  with m show "distinct (map snd (merge_map st))" by simp
  assume "v \<in> snd ` set (merge_map st)"
  then have "v \<in> set (map snd (merge_map st))" by simp
  with m have "v \<in> set (map (\<lambda>i. t0 + int i) [0..<?n])" by simp
  with t show "t0 \<le> v \<and> v < token_id st" by auto
qed

lemma consistent_rmap:
  assumes "consistent t0 orig st" "reverse_merge_map (merge_map st) x = Some (a, b)"
  shows "a < x \<and> b < x"
proof -
  from assms(2) have "((a, b), x) \<in> set (merge_map st)" by (rule reverse_merge_map_SomeD)
  with consistentD(5) [OF assms(1)] show ?thesis by fastforce
qed

lemma consistent_step:
  assumes c: "consistent t0 orig st" and step: "train_step st = Inr (Some st')"
  shows "consistent t0 orig st'"
proof -
  let ?seq = "byte_text st" and ?mm = "merge_map st" and ?tid = "token_id st"
  let ?rm = "reverse_merge_map ?mm"
  note d = consistentD [OF c]
  have len: "2 \<le> length ?seq"
    using step train_step_break [of st] by (cases "length ?seq < 2") auto
  from most_frequent_pair [OF len] obtain p where
    p: "py_max_key (get_byte_pair_frequency ?seq) = Inr p" "p \<in> set (adjacent_pairs ?seq)"
    by blast
  obtain a b where ab: "p = (a, b)" by (cases p)
  from p(2) ab have "(a, b) \<in> set (adjacent_pairs ?seq)" by simp
  from adjacent_pairs_members [OF this] have "a \<in> set ?seq" "b \<in> set ?seq" by simp_all
  with d(6) have ablt: "a < ?tid" "b < ?tid" by blast+
  from d(7) obtain bss where
    bss: "list_all2 (expands ?rm) ?seq bss" "concat bss = orig" by blast
  show ?thesis
  proof (cases "map_of ?mm p")
    case None
    from train_step_fresh [OF p(1) len None] step
    have st': "st' = st\<lparr>merge_map := ?mm @ [(p, ?tid)], token_id := ?tid + 1,
                         byte_text := merge_byte_pair ?seq p ?tid\<rparr>" by simp
    let ?rm' = "?rm(?tid \<mapsto> p)"
    from None have fresh_key: "p \<notin> set (map fst ?mm)"
      by (simp add: map_of_eq_None_iff)
    have lift: "expands ?rm' t bs" if "expands ?rm t bs" "t \<in> set ?seq" for t bs
    proof (rule expands_fresh [OF that(1)])
      from d(6) that(2) show "t < ?tid" by blast
    qed (rule consistent_rmap [OF c])
    have "list_all2 (expands ?rm') ?seq bss"
      using bss(1) lift
      by (auto simp: list_all2_conv_all_nth)
    from apply_rule_expands [OF _ this, of ?tid p] obtain bss' where
      bss': "list_all2 (expands ?rm') (apply_rule ?seq p ?tid) bss'" "concat bss' = concat bss"
      by auto
    show ?thesis
    proof (rule consistentI [where bss = bss'])
      show "distinct (map fst (merge_map st'))"
        using d(1) fresh_key by (simp add: st')
      show "map snd (merge_map st') = map (\<lambda>i. t0 + int i) [0..<length (merge_map st')]"
        using d(2,3) by (simp add: st')
      show "token_id st' = t0 + int (length (merge_map st'))"
        using d(3) by (simp add: st')
      show "\<forall>b \<in> set orig. b < t0" by (rule d(4))
      show "\<forall>e \<in> set (merge_map st'). fst (fst e) < snd e \<and> snd (fst e) < snd e"
        using d(5) ablt ab by (auto simp: st')
      show "\<forall>t \<in> set (byte_text st'). t < token_id st'"
      proof
        fix t
        assume "t \<in> set (byte_text st')"
        then have "t \<in> set (apply_rule ?seq p ?tid)" by (simp add: st' merge_byte_pair_rule)
        with set_apply_rule [of ?seq p ?tid] have "t = ?tid \<or> t \<in> set ?seq" by blast
        with d(6) have "t < ?tid + 1" by fastforce
        then show "t < token_id st'" by (simp add: st')
      qed
      show "list_all2 (expands (reverse_merge_map (merge_map st'))) (byte_text st') bss'"
        using bss'(1) by (simp add: st' merge_byte_pair_rule reverse_merge_map_append)
      show "concat bss' = orig" using bss'(2) bss(2) by simp
    qed
  next
    case (Some v)
    from train_step_reuse [OF p(1) len Some] step
    have st': "st' = st\<lparr>byte_text := merge_byte_pair ?seq p v\<rparr>" by simp
    from Some have mem: "(p, v) \<in> set ?mm" by (rule map_of_SomeD)
    from reverse_merge_map_Some [OF consistent_values(1) [OF c] mem]
    have rv: "?rm v = Some p" .
    from mem have "v \<in> snd ` set ?mm" by force
    from consistent_values(2) [OF c this] have vlt: "v < ?tid" by simp
    from apply_rule_expands [OF rv bss(1)] obtain bss' where
      bss': "list_all2 (expands ?rm) (apply_rule ?seq p v) bss'" "concat bss' = concat bss"
      by auto
    show ?thesis
    proof (rule consistentI [where bss = bss'])
      show "distinct (map fst (merge_map st'))" using d(1) by (simp add: st')
      show "map snd (merge_map st') = map (\<lambda>i. t0 + int i) [0..<length (merge_map st')]"
        using d(2) by (simp add: st')
      show "token_id st' = t0 + int (length (merge_map st'))"
        using d(3) by (simp add: st')
      show "\<forall>b \<in> set orig. b < t0" by (rule d(4))
      show "\<forall>e \<in> set (merge_map st'). fst (fst e) < snd e \<and> snd (fst e) < snd e"
        using d(5) by (simp add: st')
      show "\<forall>t \<in> set (byte_text st'). t < token_id st'"
      proof
        fix t
        assume "t \<in> set (byte_text st')"
        then have "t \<in> set (apply_rule ?seq p v)" by (simp add: st' merge_byte_pair_rule)
        with set_apply_rule [of ?seq p v] have "t = v \<or> t \<in> set ?seq" by blast
        with d(6) vlt have "t < ?tid" by fastforce
        then show "t < token_id st'" by (simp add: st')
      qed
      show "list_all2 (expands (reverse_merge_map (merge_map st'))) (byte_text st') bss'"
        using bss'(1) by (simp add: st' merge_byte_pair_rule)
      show "concat bss' = orig" using bss'(2) bss(2) by simp
    qed
  qed
qed

section \<open>The training loop\<close>

lemma train_step_cases:
  obtains (stop) "length (byte_text st) < 2" "train_step st = Inr None"
  | (fresh) p where "2 \<le> length (byte_text st)"
      "py_max_key (get_byte_pair_frequency (byte_text st)) = Inr p"
      "p \<in> set (adjacent_pairs (byte_text st))"
      "map_of (merge_map st) p = None"
      "train_step st =
         Inr (Some (st\<lparr>merge_map := merge_map st @ [(p, token_id st)],
                       token_id := token_id st + 1,
                       byte_text := merge_byte_pair (byte_text st) p (token_id st)\<rparr>))"
  | (reuse) p v where "2 \<le> length (byte_text st)"
      "py_max_key (get_byte_pair_frequency (byte_text st)) = Inr p"
      "p \<in> set (adjacent_pairs (byte_text st))"
      "map_of (merge_map st) p = Some v"
      "train_step st = Inr (Some (st\<lparr>byte_text := merge_byte_pair (byte_text st) p v\<rparr>))"
proof (cases "length (byte_text st) < 2")
  case True
  with stop train_step_break show ?thesis by blast
next
  case False
  then have len: "2 \<le> length (byte_text st)" by simp
  from most_frequent_pair [OF len] obtain p where
    p: "py_max_key (get_byte_pair_frequency (byte_text st)) = Inr p"
       "p \<in> set (adjacent_pairs (byte_text st))" by blast
  show ?thesis
  proof (cases "map_of (merge_map st) p")
    case None
    from fresh [OF len p None train_step_fresh [OF p(1) len None]] show ?thesis .
  next
    case (Some v)
    from reuse [OF len p Some train_step_reuse [OF p(1) len Some]] show ?thesis .
  qed
qed

lemma train_step_no_error: "train_step st \<noteq> Inl e"
  by (cases st rule: train_step_cases) simp_all

lemma train_step_prefix:
  "train_step st = Inr (Some st') \<Longrightarrow> prefix (merge_map st) (merge_map st')"
  by (cases st rule: train_step_cases) auto

lemma train_stuck: "train_step st = Inr None \<Longrightarrow> train k st = Inr st"
  by (cases k) simp_all

lemma train_short: "length (byte_text st) < 2 \<Longrightarrow> train k st = Inr st"
  by (simp add: train_stuck train_step_break)

lemma train_total: "\<exists>st'. train n st = Inr st'"
proof (induction n arbitrary: st)
  case 0
  show ?case by simp
next
  case (Suc n)
  show ?case
  proof (cases "train_step st")
    case (Inl e)
    with train_step_no_error show ?thesis by blast
  next
    case (Inr r)
    with Suc show ?thesis by (cases r) simp_all
  qed
qed

lemma train_add: "train n st = Inr st1 \<Longrightarrow> train (n + k) st = train k st1"
proof (induction n arbitrary: st)
  case 0
  then show ?case by simp
next
  case (Suc n)
  show ?case
  proof (cases "train_step st")
    case (Inl e)
    with train_step_no_error show ?thesis by blast
  next
    case (Inr r)
    show ?thesis
    proof (cases r)
      case None
      with Inr Suc.prems have "st1 = st" by simp
      with Inr None show ?thesis by (simp add: train_stuck)
    next
      case (Some st')
      with Inr Suc.prems have "train n st' = Inr st1" by simp
      from Suc.IH [OF this] Inr Some show ?thesis by simp
    qed
  qed
qed

lemma train_prefix: "train n st = Inr st' \<Longrightarrow> prefix (merge_map st) (merge_map st')"
proof (induction n arbitrary: st)
  case 0
  then show ?case by simp
next
  case (Suc n)
  show ?case
  proof (cases "train_step st")
    case (Inl e)
    with train_step_no_error show ?thesis by blast
  next
    case (Inr r)
    show ?thesis
    proof (cases r)
      case None
      with Inr Suc.prems show ?thesis by simp
    next
      case (Some st1)
      with Inr Suc.prems have "train n st1 = Inr st'" by simp
      from Suc.IH [OF this] train_step_prefix [of st st1] Inr Some show ?thesis
        by (auto intro: prefix_order.trans)
    qed
  qed
qed

lemma consistent_train:
  "consistent t0 orig st \<Longrightarrow> train n st = Inr st' \<Longrightarrow> consistent t0 orig st'"
proof (induction n arbitrary: st)
  case 0
  then show ?case by simp
next
  case (Suc n)
  show ?case
  proof (cases "train_step st")
    case (Inl e)
    with train_step_no_error show ?thesis by blast
  next
    case (Inr r)
    show ?thesis
    proof (cases r)
      case None
      with Inr Suc.prems show ?thesis by simp
    next
      case (Some st1)
      with Inr Suc.prems have "train n st1 = Inr st'" by simp
      moreover from Inr Some Suc.prems(1) have "consistent t0 orig st1"
        by (auto intro: consistent_step)
      ultimately show ?thesis by (rule Suc.IH [rotated])
    qed
  qed
qed

lemma foldl_max_ge: "(x::int) \<le> foldl max x r \<and> (\<forall>b \<in> set r. b \<le> foldl max x r)"
proof (induction r arbitrary: x)
  case Nil
  show ?case by simp
next
  case (Cons y r)
  from Cons [of "max x y"] show ?case by auto
qed

lemma py_max_bound: "py_max bs = Inr m \<Longrightarrow> b \<in> set bs \<Longrightarrow> b \<le> m"
  using foldl_max_ge by (cases bs) (auto simp: py_max_def)

lemma consistent_init:
  assumes "py_max bs = Inr m"
  shows "consistent (m + 1) bs \<lparr>byte_text = bs, token_id = m + 1, merge_map = []\<rparr>"
proof (rule consistentI [where bss = "map (\<lambda>t. [t]) bs"])
  show "\<forall>b \<in> set bs. b < m + 1" using py_max_bound [OF assms] by fastforce
  show "\<forall>t \<in> set (byte_text \<lparr>byte_text = bs, token_id = m + 1, merge_map = []\<rparr>).
          t < token_id \<lparr>byte_text = bs, token_id = m + 1, merge_map = []\<rparr>"
    using py_max_bound [OF assms] by fastforce
  show "list_all2 (expands (reverse_merge_map
           (merge_map \<lparr>byte_text = bs, token_id = m + 1, merge_map = []\<rparr>)))
         (byte_text \<lparr>byte_text = bs, token_id = m + 1, merge_map = []\<rparr>) (map (\<lambda>t. [t]) bs)"
    using expands_empty_map [of bs] by (simp add: reverse_merge_map_def)
qed (simp_all add: concat_singletons)

lemma byte_pair_encoding_run:
  assumes "joined_bytes texts = Inr bs" "bs \<noteq> []"
  obtains m st where "py_max bs = Inr m"
    "train (nat num_merges) \<lparr>byte_text = bs, token_id = m + 1, merge_map = []\<rparr> = Inr st"
    "byte_pair_encoding texts num_merges = Inr (byte_text st, merge_map st)"
    "consistent (m + 1) bs st"
proof -
  from assms(2) obtain m where m: "py_max bs = Inr m" by (cases bs) (auto simp: py_max_def)
  from train_total obtain st where
    st: "train (nat num_merges) \<lparr>byte_text = bs, token_id = m + 1, merge_map = []\<rparr> = Inr st"
    by blast
  from consistent_train [OF consistent_init [OF m] st] have "consistent (m + 1) bs st" .
  moreover from assms(1) m st
  have "byte_pair_encoding texts num_merges = Inr (byte_text st, merge_map st)"
    by (simp add: byte_pair_encoding_def)
  ultimately show ?thesis using m st that by blast
qed

lemma byte_pair_encoding_empty:
  "joined_bytes texts = Inr [] \<Longrightarrow> byte_pair_encoding texts num_merges = Inl ValueError"
  by (simp add: byte_pair_encoding_def py_max_def)

lemma byte_pair_encoding_InrD:
  assumes "byte_pair_encoding texts num_merges = Inr (seq, mm)"
  obtains bs m st where "joined_bytes texts = Inr bs" "bs \<noteq> []" "py_max bs = Inr m"
    "train (nat num_merges) \<lparr>byte_text = bs, token_id = m + 1, merge_map = []\<rparr> = Inr st"
    "seq = byte_text st" "mm = merge_map st" "consistent (m + 1) bs st"
proof -
  from assms obtain bs where bs: "joined_bytes texts = Inr bs"
    by (cases "joined_bytes texts") (auto simp: byte_pair_encoding_def)
  with assms have ne: "bs \<noteq> []" by (auto simp: byte_pair_encoding_empty)
  from byte_pair_encoding_run [OF bs ne, of num_merges] assms bs ne that show ?thesis
    by (metis Pair_inject sum.inject(2))
qed

section \<open>Claims about the merge map, plain decoding and early termination\<close>

lemma ids_increasing: "sorted_wrt (<) (map (\<lambda>i. t0 + int i) [0..<n])"
  by (simp add: sorted_wrt_map)

text \<open>C2, with the bytes of the corpus in place of all byte values. After a training
  run that returns, the keys of the merge map are distinct, its values are strictly
  increasing in insertion order (so each is above every id assigned before it), each value
  is above every byte of the joined corpus, and a run with more iterations returns a merge
  map that extends this one: no entry is lost or changed.\<close>

theorem merge_map_invariant:
  assumes "byte_pair_encoding texts num_merges = Inr (seq, mm)"
  shows "distinct (map fst mm)
     \<and> sorted_wrt (<) (map snd mm)
     \<and> (\<exists>corpus. joined_bytes texts = Inr corpus
           \<and> (\<forall>v \<in> set (map snd mm). \<forall>b \<in> set corpus. b < v))
     \<and> (\<forall>k \<ge> 0. \<exists>seq' mm'. byte_pair_encoding texts (num_merges + k) = Inr (seq', mm')
           \<and> prefix mm mm')"
proof -
  from assms obtain bs m st where
    r: "joined_bytes texts = Inr bs" "bs \<noteq> []" "py_max bs = Inr m"
       "train (nat num_merges) \<lparr>byte_text = bs, token_id = m + 1, merge_map = []\<rparr> = Inr st"
       "seq = byte_text st" "mm = merge_map st" "consistent (m + 1) bs st"
    by (rule byte_pair_encoding_InrD)
  note d = consistentD [OF r(7)]
  have keys: "distinct (map fst mm)" using d(1) r(6) by simp
  have incr: "sorted_wrt (<) (map snd mm)"
    using d(2) r(6) ids_increasing [of "m + 1" "length mm"] by simp
  have above: "\<forall>v \<in> set (map snd mm). \<forall>b \<in> set bs. b < v"
  proof (intro ballI)
    fix v b
    assume "v \<in> set (map snd mm)" "b \<in> set bs"
    with consistent_values(2) [OF r(7), of v] d(4) r(6) show "b < v" by fastforce
  qed
  have grows: "\<exists>seq' mm'. byte_pair_encoding texts (num_merges + k) = Inr (seq', mm')
                 \<and> prefix mm mm'" if "0 \<le> k" for k
  proof -
    define j where "j = nat (num_merges + k) - nat num_merges"
    from that have n: "nat (num_merges + k) = nat num_merges + j" by (simp add: j_def)
    obtain st' where st': "train j st = Inr st'" using train_total by blast
    from train_add [OF r(4), of j] st' n
    have "train (nat (num_merges + k)) \<lparr>byte_text = bs, token_id = m + 1, merge_map = []\<rparr>
            = Inr st'" by simp
    with r(1,3) have "byte_pair_encoding texts (num_merges + k) = Inr (byte_text st', merge_map st')"
      by (simp add: byte_pair_encoding_def)
    moreover from train_prefix [OF st'] r(6) have "prefix mm (merge_map st')" by simp
    ultimately show ?thesis by blast
  qed
  from keys incr above grows r(1) show ?thesis by blast
qed

lemma joined_bytes_ab_ab:
  "joined_bytes [[97, 98], [97, 98]] = Inr [97, 98, 91, 83, 69, 80, 93, 97, 98]"
  by (simp add: joined_bytes_def str_encode_def utf8_bytes_def encode_cp_def encodable_def
        SEP_TOKEN_BYTES_def SEP_TOKEN_def)

lemma train_ab_ab:
  "train 3 \<lparr>byte_text = [97, 98, 91, 83, 69, 80, 93, 97, 98], token_id = 99, merge_map = []\<rparr>
     = Inr \<lparr>byte_text = [101, 69, 80, 93, 99], token_id = 102,
            merge_map = [((97, 98), 99), ((99, 91), 100), ((100, 83), 101)]\<rparr>"
  by code_simp

lemma bpe_ab_ab:
  "byte_pair_encoding [[97, 98], [97, 98]] 3
     = Inr ([101, 69, 80, 93, 99], [((97, 98), 99), ((99, 91), 100), ((100, 83), 101)])"
  by (simp add: byte_pair_encoding_def joined_bytes_ab_ab py_max_def train_ab_ab
        del: train.simps)

theorem merge_map_invariant_witness:
  "byte_pair_encoding [[97, 98], [97, 98]] 3
     = Inr ([101, 69, 80, 93, 99], [((97, 98), 99), ((99, 91), 100), ((100, 83), 101)])
   \<and> distinct (map fst [((97, 98), 99), ((99, 91), 100), ((100 :: int, 83 :: int), 101 :: int)])
   \<and> sorted_wrt (<) (map snd [((97, 98), 99), ((99, 91), 100), ((100 :: int, 83 :: int), 101 :: int)])
   \<and> (\<exists>seq' mm'. byte_pair_encoding [[97, 98], [97, 98]] (3 + 2) = Inr (seq', mm')
          \<and> prefix [((97, 98), 99), ((99, 91), 100), ((100, 83), 101)] mm')"
proof -
  note e = bpe_ab_ab
  note inv = merge_map_invariant [OF e]
  from inv have "\<forall>k\<ge>0. \<exists>seq' mm'. byte_pair_encoding [[97, 98], [97, 98]] (3 + k) = Inr (seq', mm')
          \<and> prefix [((97, 98), 99), ((99, 91), 100), ((100, 83), 101)] mm'"
    by (elim conjE)
  then have "\<exists>seq' mm'. byte_pair_encoding [[97, 98], [97, 98]] (3 + 2) = Inr (seq', mm')
          \<and> prefix [((97, 98), 99), ((99, 91), 100), ((100, 83), 101)] mm'"
    by (rule allE [of _ 2]) simp
  moreover from inv have
    "distinct (map fst [((97, 98), 99), ((99, 91), 100), ((100 :: int, 83 :: int), 101 :: int)])"
    by (elim conjE)
  moreover from inv have
    "sorted_wrt (<) (map snd [((97, 98), 99), ((99, 91), 100), ((100 :: int, 83 :: int), 101 :: int)])"
    by (elim conjE)
  ultimately show ?thesis using e by (intro conjI)
qed

text \<open>C9. A sequence of values in 0..255 that is valid UTF-8 decodes, under the empty merge
  map, to exactly the text whose UTF-8 encoding it is.\<close>

theorem decode_of_raw_bytes:
  assumes "list_all (\<lambda>t. 0 \<le> t \<and> t < 256) seq" and "utf8_decode (map nat seq) = Some text"
  shows "decode_byte_pair seq [] = Some (Inr text) \<and> map int (utf8_bytes text) = seq"
proof -
  from assms(1) have "map int (map nat seq) = seq"
    by (induction seq) simp_all
  with encode_decode [OF assms(2)] have "map int (utf8_bytes text) = seq" by simp
  with assms show ?thesis
    by (simp add: decode_no_merges py_bytes_of_def bytes_decode_def)
qed

theorem decode_of_raw_bytes_witness:
  "list_all (\<lambda>t. 0 \<le> t \<and> t < 256) [226, 130, 172, 97 :: int]
   \<and> utf8_decode (map nat [226, 130, 172, 97]) = Some [8364, 97]
   \<and> decode_byte_pair [226, 130, 172, 97] [] = Some (Inr [8364, 97])"
proof -
  have a: "list_all (\<lambda>t. 0 \<le> t \<and> t < 256) [226, 130, 172, 97 :: int]" by simp
  have b: "utf8_decode (map nat [226, 130, 172, 97]) = Some [8364, 97]"
    by (simp add: is_cont_def encodable_def)
  from decode_of_raw_bytes [OF a b] a b show ?thesis by simp
qed

lemma train_two_bytes:
  "train (Suc n) \<lparr>byte_text = [x, y], token_id = t, merge_map = []\<rparr>
     = Inr \<lparr>byte_text = [t], token_id = t + 1, merge_map = [((x, y), t)]\<rparr>"
proof -
  have f: "get_byte_pair_frequency [x, y] = [((x, y), 1)]"
    by (simp add: get_byte_pair_frequency_def)
  have "train_step \<lparr>byte_text = [x, y], token_id = t, merge_map = []\<rparr>
          = Inr (Some \<lparr>byte_text = [t], token_id = t + 1, merge_map = [((x, y), t)]\<rparr>)"
    by (simp add: train_step_def f py_max_key_def dict_contains_def dict_get_def
          merge_byte_pair_rule)
  then show ?thesis by (simp add: train_short)
qed

lemma two_byte_corpus:
  assumes "joined_bytes texts = Inr [x, y]" "0 < num_merges"
  shows "byte_pair_encoding texts num_merges = Inr ([max x y + 1], [((x, y), max x y + 1)])"
proof -
  from assms(2) obtain n where "nat num_merges = Suc n" by (cases "nat num_merges") auto
  with assms(1) show ?thesis
    by (simp add: byte_pair_encoding_def py_max_def train_two_bytes del: train.simps)
qed

lemma bpe_aa: "byte_pair_encoding [[97, 97]] 1 = Inr ([98], [((97, 97), 98)])"
proof -
  have "joined_bytes [[97, 97]] = Inr [97, 97]"
    by (simp add: joined_bytes_def str_encode_def utf8_bytes_def encode_cp_def encodable_def)
  from two_byte_corpus [OF this, of 1] show ?thesis by simp
qed

text \<open>An id need not be above every byte value: the id counter starts at the largest
  byte of the corpus plus one, and the corpus \<^verbatim>\<open>aa\<close> gets the id 98.\<close>

theorem merge_map_id_below_256:
  "byte_pair_encoding [[97, 97]] 1 = Inr ([98], [((97, 97), 98)]) \<and> (98 :: int) \<le> 255"
  using bpe_aa by simp

text \<open>C7. A sequence with fewer than two elements ends the loop at once and without an
  error (\<open>train_short\<close>), and a corpus of two bytes yields exactly one merge
  (\<open>two_byte_corpus\<close>). But a corpus without any byte never reaches the loop:
  \<^verbatim>\<open>max(byte_text)\<close> raises ValueError, although the sequence has no adjacent pair.\<close>

theorem empty_corpus_raises:
  "byte_pair_encoding [[]] 1000 = Inl ValueError \<and> byte_pair_encoding [] 1000 = Inl ValueError"
  by (simp add: byte_pair_encoding_def joined_bytes_def str_encode_def utf8_bytes_def py_max_def)

section \<open>Joining and splitting on the separator\<close>

lemma py_join_Cons: "ys \<noteq> [] \<Longrightarrow> py_join sep (x # ys) = x @ sep @ py_join sep ys"
  by (cases ys) simp_all

lemma py_join_between: "py_join sep (x # xs) = x @ concat (map ((@) sep) xs)"
  by (induction xs arbitrary: x) (simp_all add: py_join_Cons)

lemma split_from_nonempty: "split_from sep cur tx \<noteq> []"
  by (induction sep cur tx rule: split_from.induct) auto

lemma prefix_drop_sep:
  assumes "sep \<noteq> []" "prefix sep (c # cs)"
  shows "c # cs = sep @ drop (length sep - 1) cs"
proof -
  from assms(2) obtain rest where r: "c # cs = sep @ rest" by (auto simp: prefix_def)
  with assms(1) obtain sep' where s: "sep = c # sep'" by (cases sep) auto
  with r have "cs = sep' @ rest" by simp
  with s r show ?thesis by simp
qed

lemma join_split_from:
  "sep \<noteq> [] \<Longrightarrow> py_join sep (split_from sep cur tx) = cur @ tx"
proof (induction sep cur tx rule: split_from.induct)
  case (1 sep cur)
  show ?case by simp
next
  case (2 sep cur c cs)
  show ?case
  proof (cases "prefix sep (c # cs)")
    case True
    from prefix_drop_sep [OF "2.prems" True] have e: "c # cs = sep @ drop (length sep - 1) cs" .
    from "2.IH"(1) [OF True "2.prems"]
    have ih: "py_join sep (split_from sep [] (drop (length sep - 1) cs))
                = drop (length sep - 1) cs"
      by simp
    from True have "split_from sep cur (c # cs)
                      = cur # split_from sep [] (drop (length sep - 1) cs)" by simp
    then have "py_join sep (split_from sep cur (c # cs))
                 = cur @ sep @ py_join sep (split_from sep [] (drop (length sep - 1) cs))"
      by (simp only: py_join_Cons [OF split_from_nonempty])
    also have "\<dots> = cur @ sep @ drop (length sep - 1) cs" by (simp only: ih)
    also have "\<dots> = cur @ c # cs" by (simp only: e [symmetric])
    finally show ?thesis .
  next
    case False
    with "2.IH"(2) [OF False "2.prems"] show ?thesis by simp
  qed
qed

lemma occurrences_skip:
  "a \<notin> set xs \<Longrightarrow> occurrences (a # r) (xs @ rest) = occurrences (a # r) rest"
  by (induction xs) auto

lemma length_split_from:
  "a \<notin> set r \<Longrightarrow> length (split_from (a # r) cur tx) = Suc (occurrences (a # r) tx)"
proof (induction "a # r" cur tx rule: split_from.induct)
  case (1 cur)
  show ?case by simp
next
  case (2 cur c cs)
  show ?case
  proof (cases "prefix (a # r) (c # cs)")
    case True
    from prefix_drop_sep [OF _ True] have e: "c # cs = (a # r) @ drop (length (a # r) - 1) cs"
      by simp
    then have cs: "cs = r @ drop (length r) cs" by simp
    have "occurrences (a # r) cs = occurrences (a # r) (drop (length r) cs)"
      using occurrences_skip [OF "2.prems", of r "drop (length r) cs"] cs by simp
    with "2.hyps"(1) [OF True "2.prems"] True show ?thesis by simp
  next
    case False
    with "2.hyps"(2) [OF False "2.prems"] show ?thesis by auto
  qed
qed

lemma occurrences_zero_iff: "sep \<noteq> [] \<Longrightarrow> occurrences sep tx = 0 \<longleftrightarrow> \<not> sublist sep tx"
  by (induction tx) (auto simp: sublist_Cons_right)

lemma split_from_block:
  assumes "a \<notin> set r"
  shows "occurrences (a # r) b = 0 \<Longrightarrow>
           split_from (a # r) cur (b @ (a # r) @ rest) = (cur @ b) # split_from (a # r) [] rest"
proof (induction b arbitrary: cur)
  case Nil
  show ?case by simp
next
  case (Cons c b)
  from Cons.prems have np: "\<not> prefix (a # r) (c # b)" and z: "occurrences (a # r) b = 0"
    by (auto split: if_splits)
  have "\<not> prefix (a # r) (c # b @ (a # r) @ rest)"
  proof
    assume "prefix (a # r) (c # b @ (a # r) @ rest)"
    then have "prefix (a # r) ((c # b) @ (a # r) @ rest)" by (simp only: append_Cons)
    with np obtain us where us: "a # r = (c # b) @ us" "prefix us ((a # r) @ rest)"
      unfolding prefix_append by blast
    from us(1) np have "us \<noteq> []" by auto
    with us(2) obtain us' where "us = a # us'" by (cases us) auto
    with us(1) have "a \<in> set r" by auto
    with assms show False by simp
  qed
  with Cons.IH [OF z, of "cur @ [c]"] show ?case by auto
qed

lemma split_from_last: "occurrences sep b = 0 \<Longrightarrow> split_from sep cur b = [cur @ b]"
  by (induction b arbitrary: cur) (auto split: if_splits)

lemma split_join_blocks:
  assumes "a \<notin> set r"
  shows "blocks \<noteq> [] \<Longrightarrow> \<forall>b \<in> set blocks. occurrences (a # r) b = 0 \<Longrightarrow>
           split_from (a # r) [] (py_join (a # r) blocks) = blocks"
proof (induction "a # r" blocks rule: py_join.induct)
  case 1
  then show ?case by simp
next
  case (2 x)
  then show ?case by (simp add: split_from_last)
next
  case (3 x y ys)
  from "3.prems" have "occurrences (a # r) x = 0" by simp
  from split_from_block [OF assms this, of "[]" "py_join (a # r) (y # ys)"] "3.hyps" "3.prems"
  show ?case by simp
qed

lemma encode_texts_eq:
  "encode_texts texts =
     (if list_all (list_all encodable) texts then Inr (map utf8_bytes texts)
      else Inl UnicodeEncodeError)"
  by (induction texts) (simp_all add: str_encode_def)

lemma joined_bytes_eq:
  "joined_bytes texts =
     (if list_all (list_all encodable) texts
      then Inr (map int (py_join SEP_TOKEN_BYTES (map utf8_bytes texts)))
      else Inl UnicodeEncodeError)"
  by (simp add: joined_bytes_def encode_texts_eq)

lemma sep_token_bytes: "SEP_TOKEN_BYTES = [0x5B, 0x53, 0x45, 0x50, 0x5D]"
  by (simp add: SEP_TOKEN_BYTES_def SEP_TOKEN_def utf8_bytes_def encode_cp_def)

lemma sep_token_encodable: "list_all encodable SEP_TOKEN"
  by (simp add: SEP_TOKEN_def encodable_def)

lemma utf8_bytes_join:
  "utf8_bytes (py_join sep xs) = py_join (utf8_bytes sep) (map utf8_bytes xs)"
  by (induction sep xs rule: py_join.induct) (simp_all add: utf8_bytes_append, simp add: utf8_bytes_def)

lemma encodable_join:
  "list_all encodable sep \<Longrightarrow> list_all (list_all encodable) xs
     \<Longrightarrow> list_all encodable (py_join sep xs)"
  by (induction sep xs rule: py_join.induct) simp_all

lemma joined_corpus_text:
  "py_join SEP_TOKEN_BYTES (map utf8_bytes texts) = utf8_bytes (py_join SEP_TOKEN texts)"
  by (simp add: utf8_bytes_join SEP_TOKEN_BYTES_def)

lemma split_on_sep_default:
  "split_on_sep s SEP_TOKEN = Inr (split_from SEP_TOKEN [] s)"
  by (simp add: split_on_sep_def py_split_def SEP_TOKEN_def)

lemma sep_token_shape: "\<exists>a r. SEP_TOKEN = a # r \<and> a \<notin> set r"
  by (simp add: SEP_TOKEN_def)

text \<open>C8. For blocks of encodable text, the joined corpus is the UTF-8 encoding of the
  first block followed, for every further block, by the separator's bytes and the block's
  encoding: the separator stands between consecutive blocks only. Every element is an
  integer in 0..255. Splitting a text on the separator \<^verbatim>\<open>[SEP]\<close> gives one piece more
  than the separator has occurrences in it; the pieces, joined by the separator in order,
  are the text again; two adjacent separators give three empty pieces.\<close>

theorem corpus_framer_contract:
  "(list_all (list_all encodable) texts \<longrightarrow>
      (\<exists>corpus. joined_bytes texts = Inr corpus
         \<and> corpus = map int (case texts of [] \<Rightarrow> []
                        | t # ts \<Rightarrow> utf8_bytes t
                            @ concat (map (\<lambda>u. SEP_TOKEN_BYTES @ utf8_bytes u) ts))
         \<and> (\<forall>b \<in> set corpus. 0 \<le> b \<and> b \<le> 255)))
   \<and> SEP_TOKEN_BYTES = [0x5B, 0x53, 0x45, 0x50, 0x5D]
   \<and> (\<exists>pieces. split_on_sep s SEP_TOKEN = Inr pieces
          \<and> length pieces = Suc (occurrences SEP_TOKEN s)
          \<and> py_join SEP_TOKEN pieces = s)
   \<and> split_on_sep (SEP_TOKEN @ SEP_TOKEN) SEP_TOKEN = Inr [[], [], []]"
proof -
  have join: "\<exists>corpus. joined_bytes texts = Inr corpus
         \<and> corpus = map int (case texts of [] \<Rightarrow> []
                        | t # ts \<Rightarrow> utf8_bytes t
                            @ concat (map (\<lambda>u. SEP_TOKEN_BYTES @ utf8_bytes u) ts))
         \<and> (\<forall>b \<in> set corpus. 0 \<le> b \<and> b \<le> 255)"
    if ok: "list_all (list_all encodable) texts"
  proof -
    let ?c = "py_join SEP_TOKEN_BYTES (map utf8_bytes texts)"
    have shape: "?c = (case texts of [] \<Rightarrow> []
                        | t # ts \<Rightarrow> utf8_bytes t
                            @ concat (map (\<lambda>u. SEP_TOKEN_BYTES @ utf8_bytes u) ts))"
      by (cases texts) (simp, simp add: py_join_between comp_def del: py_join.simps)
    from ok sep_token_encodable have "list_all encodable (py_join SEP_TOKEN texts)"
      by (intro encodable_join)
    then have "\<forall>b \<in> set ?c. b < 256"
      unfolding joined_corpus_text by (blast intro: utf8_bytes_lt_256)
    then have "\<forall>b \<in> set (map int ?c). 0 \<le> b \<and> b \<le> 255" by auto
    with ok shape show ?thesis by (simp add: joined_bytes_eq)
  qed
  obtain a r where ar: "SEP_TOKEN = a # r" "a \<notin> set r" using sep_token_shape by blast
  have pieces: "length (split_from SEP_TOKEN [] s) = Suc (occurrences SEP_TOKEN s)"
    unfolding ar(1) by (rule length_split_from [OF ar(2)])
  have whole: "py_join SEP_TOKEN (split_from SEP_TOKEN [] s) = s"
  proof -
    have "SEP_TOKEN \<noteq> []" by (simp add: SEP_TOKEN_def)
    from join_split_from [OF this, of "[]" s] show ?thesis by simp
  qed
  have adj: "split_on_sep (SEP_TOKEN @ SEP_TOKEN) SEP_TOKEN = Inr [[], [], []]"
    by (simp add: split_on_sep_default) (simp add: SEP_TOKEN_def)
  from join pieces whole adj sep_token_bytes show ?thesis
    by (simp add: split_on_sep_default)
qed

theorem corpus_framer_contract_witness:
  "list_all (list_all encodable) [[97, 98], [], [233]]
   \<and> joined_bytes [[97, 98], [], [233]]
        = Inr [97, 98, 91, 83, 69, 80, 93, 91, 83, 69, 80, 93, 195, 169]"
proof -
  have ok: "list_all (list_all encodable) [[97, 98], [], [233]]"
    by (simp add: encodable_def)
  from corpus_framer_contract [of "[[97, 98], [], [233]]" "[]"] ok
  have "joined_bytes [[97, 98], [], [233]]
          = Inr (map int (utf8_bytes [97, 98]
                   @ concat (map (\<lambda>u. SEP_TOKEN_BYTES @ utf8_bytes u) [[], [233]])))"
    by simp
  with ok show ?thesis
    by (simp add: utf8_bytes_def encode_cp_def sep_token_bytes)
qed

section \<open>The round trip\<close>

lemma encode_cp_nonempty: "encode_cp c \<noteq> []"
  by (simp add: encode_cp_def)

lemma utf8_bytes_empty_iff: "utf8_bytes s = [] \<longleftrightarrow> s = []"
  by (cases s) (simp_all add: utf8_bytes_def encode_cp_nonempty)

lemma py_join_empty_iff: "sep \<noteq> [] \<Longrightarrow> py_join sep xs = [] \<longleftrightarrow> xs = [] \<or> xs = [[]]"
  by (induction sep xs rule: py_join.induct) simp_all

lemma py_bytes_of_bytes: "\<forall>b \<in> set bs. b < 256 \<Longrightarrow> py_bytes_of (map int bs) = Inr bs"
  by (simp add: py_bytes_of_def list_all_iff comp_def)

lemma decode_trained:
  assumes "consistent t0 bs st"
  shows "expand_loop (reverse_merge_map (merge_map st)) (rev (byte_text st)) [] = Some bs"
proof -
  from consistentD(7) [OF assms] obtain bss where
    "list_all2 (expands (reverse_merge_map (merge_map st))) (byte_text st) bss" "concat bss = bs"
    by blast
  with expand_loop_all [of "reverse_merge_map (merge_map st)" "byte_text st" bss "[]"]
  show ?thesis by simp
qed

text \<open>C1, for a corpus that has at least one byte. For blocks of encodable text, none of
  which contains the separator, and that are neither no block at all nor a single empty
  block, and for every \<open>num_merges\<close>: training returns; the expansion loop of the decoder
  gives back the bytes of the joined corpus exactly; decoding returns the joined text; and
  splitting it on the separator returns the blocks.\<close>

theorem round_trip:
  assumes "list_all (list_all encodable) B"
    and "\<forall>b \<in> set B. \<not> sublist SEP_TOKEN b"
    and "B \<noteq> []" and "B \<noteq> [[]]"
  shows "\<exists>seq mm corpus.
           byte_pair_encoding B num_merges = Inr (seq, mm)
           \<and> joined_bytes B = Inr corpus
           \<and> expand_loop (reverse_merge_map mm) (rev seq) [] = Some corpus
           \<and> decode_byte_pair seq mm = Some (Inr (py_join SEP_TOKEN B))
           \<and> split_on_sep (py_join SEP_TOKEN B) SEP_TOKEN = Inr B"
proof -
  let ?joined = "py_join SEP_TOKEN B"
  let ?bytes = "utf8_bytes ?joined"
  have sep: "SEP_TOKEN \<noteq> []" by (simp add: SEP_TOKEN_def)
  from assms(1) have jb: "joined_bytes B = Inr (map int ?bytes)"
    by (simp add: joined_bytes_eq joined_corpus_text)
  from assms(3,4) have "?bytes \<noteq> []"
    by (simp add: utf8_bytes_empty_iff py_join_empty_iff [OF sep])
  then have ne: "map int ?bytes \<noteq> []" by simp
  from byte_pair_encoding_run [OF jb ne, of num_merges] obtain m st where
    run: "byte_pair_encoding B num_merges = Inr (byte_text st, merge_map st)"
      "consistent (m + 1) (map int ?bytes) st" by blast
  from decode_trained [OF run(2)]
  have ex: "expand_loop (reverse_merge_map (merge_map st)) (rev (byte_text st)) []
              = Some (map int ?bytes)" .
  from assms(1) sep_token_encodable have enc: "list_all encodable ?joined"
    by (intro encodable_join)
  then have "\<forall>b \<in> set ?bytes. b < 256" by (blast intro: utf8_bytes_lt_256)
  then have "py_bytes_of (map int ?bytes) = Inr ?bytes" by (rule py_bytes_of_bytes)
  with ex decode_utf8_bytes [OF enc]
  have dec: "decode_byte_pair (byte_text st) (merge_map st) = Some (Inr ?joined)"
    by (simp add: decode_byte_pair_def bytes_decode_def)
  obtain a r where ar: "SEP_TOKEN = a # r" "a \<notin> set r" using sep_token_shape by blast
  from assms(2) have "\<forall>b \<in> set B. occurrences SEP_TOKEN b = 0"
    by (simp add: occurrences_zero_iff [OF sep])
  with split_join_blocks [OF ar(2) assms(3), of ]
  have "split_from SEP_TOKEN [] ?joined = B" unfolding ar(1) by blast
  then have "split_on_sep ?joined SEP_TOKEN = Inr B" by (simp add: split_on_sep_default)
  with run(1) jb ex dec show ?thesis by blast
qed

theorem round_trip_witness:
  "list_all (list_all encodable) [[97, 98], [97, 98]]
   \<and> \<not> sublist SEP_TOKEN [97, 98]
   \<and> byte_pair_encoding [[97, 98], [97, 98]] 3
       = Inr ([101, 69, 80, 93, 99], [((97, 98), 99), ((99, 91), 100), ((100, 83), 101)])
   \<and> decode_byte_pair [101, 69, 80, 93, 99] [((97, 98), 99), ((99, 91), 100), ((100, 83), 101)]
       = Some (Inr [97, 98, 91, 83, 69, 80, 93, 97, 98])
   \<and> split_on_sep [97, 98, 91, 83, 69, 80, 93, 97, 98] SEP_TOKEN = Inr [[97, 98], [97, 98]]"
proof -
  have a: "list_all (list_all encodable) [[97, 98], [97, 98]]" by (simp add: encodable_def)
  have b: "\<forall>b \<in> set [[97, 98], [97, 98]]. \<not> sublist SEP_TOKEN b"
    by (simp add: SEP_TOKEN_def sublist_Cons_right)
  have j: "py_join SEP_TOKEN [[97, 98], [97, 98]] = [97, 98, 91, 83, 69, 80, 93, 97, 98]"
    by (simp add: SEP_TOKEN_def)
  from round_trip [OF a b, of 3] obtain seq mm where
    r: "byte_pair_encoding [[97, 98], [97, 98]] 3 = Inr (seq, mm)"
    "decode_byte_pair seq mm = Some (Inr (py_join SEP_TOKEN [[97, 98], [97, 98]]))"
    "split_on_sep (py_join SEP_TOKEN [[97, 98], [97, 98]]) SEP_TOKEN = Inr [[97, 98], [97, 98]]"
    by auto
  from r(1) have s: "seq = [101, 69, 80, 93, 99]"
    "mm = [((97, 98), 99), ((99, 91), 100), ((100, 83), 101)]"
    by (simp_all add: bpe_ab_ab)
  from r(2) have d: "decode_byte_pair [101, 69, 80, 93, 99]
                       [((97, 98), 99), ((99, 91), 100), ((100, 83), 101)]
                     = Some (Inr [97, 98, 91, 83, 69, 80, 93, 97, 98])"
    unfolding j s .
  from r(3) have sp: "split_on_sep [97, 98, 91, 83, 69, 80, 93, 97, 98] SEP_TOKEN
                        = Inr [[97, 98], [97, 98]]"
    unfolding j .
  from b have "\<not> sublist SEP_TOKEN [97, 98]" by simp
  with a bpe_ab_ab d sp show ?thesis by (intro conjI)
qed

text \<open>For no blocks at all the round trip fails: training raises ValueError, and the
  split of the joined text, which is empty, is one empty block and not the empty list.\<close>

theorem round_trip_no_blocks:
  "byte_pair_encoding [] 5 = Inl ValueError
   \<and> split_on_sep (py_join SEP_TOKEN []) SEP_TOKEN = Inr [[]]"
  by (simp add: byte_pair_encoding_def joined_bytes_def py_max_def split_on_sep_default)

section \<open>When the decoder returns\<close>

lemma expands_total:
  assumes "\<forall>e \<in> set mm. fst (fst e) < snd e \<and> snd (fst e) < snd e"
  shows "\<exists>bs. expands (reverse_merge_map mm) t bs"
proof -
  let ?rm = "reverse_merge_map mm"
  define L where "L = Min (insert 0 (snd ` set mm))"
  have low: "L \<le> x" if "?rm x = Some p" for x p
  proof -
    from that have "(p, x) \<in> set mm" by (rule reverse_merge_map_SomeD)
    then have "x \<in> insert 0 (snd ` set mm)" by force
    then show ?thesis unfolding L_def by (intro Min_le) auto
  qed
  have below: "\<forall>t. t < L + int n \<longrightarrow> (\<exists>bs. expands ?rm t bs)" for n
  proof (induction n)
    case 0
    show ?case
    proof (intro allI impI)
      fix t assume "t < L + int 0"
      with low [of t] have "?rm t = None" by (cases "?rm t") auto
      then show "\<exists>bs. expands ?rm t bs" by (blast intro: expands.leaf)
    qed
  next
    case (Suc n)
    show ?case
    proof (intro allI impI)
      fix t assume t: "t < L + int (Suc n)"
      show "\<exists>bs. expands ?rm t bs"
      proof (cases "?rm t")
        case None
        then show ?thesis by (blast intro: expands.leaf)
      next
        case (Some p)
        obtain a b where p: "p = (a, b)" by (cases p)
        from Some p have "((a, b), t) \<in> set mm" by (simp add: reverse_merge_map_SomeD)
        with assms have "a < t" "b < t" by fastforce+
        with t have "a < L + int n" "b < L + int n" by simp_all
        with Suc obtain as bs where "expands ?rm a as" "expands ?rm b bs" by blast
        with Some p show ?thesis by (blast intro: expands.node)
      qed
    qed
  qed
  have "t < L + int (nat (t - L + 1))" by simp
  with below show ?thesis by blast
qed

lemma expands_total_list:
  assumes "\<forall>e \<in> set mm. fst (fst e) < snd e \<and> snd (fst e) < snd e"
  shows "\<exists>bss. list_all2 (expands (reverse_merge_map mm)) ts bss"
proof (induction ts)
  case Nil
  show ?case by simp
next
  case (Cons t ts)
  from expands_total [OF assms, of t] Cons show ?case
    by (auto simp: list_all2_Cons1)
qed

lemma expand_loop_returns:
  assumes "\<forall>e \<in> set mm. fst (fst e) < snd e \<and> snd (fst e) < snd e"
  shows "\<exists>buf. expand_loop (reverse_merge_map mm) (rev encoded) [] = Some buf"
proof -
  from expands_total_list [OF assms, of encoded] obtain bss where
    "list_all2 (expands (reverse_merge_map mm)) encoded bss" by blast
  from expand_loop_all [OF this, of "[]"] show ?thesis by simp
qed

lemma expand_loop_buffer:
  assumes "expand_loop rmap stack decoded = Some y"
  shows "(\<forall>t \<in> set y. t \<in> set decoded \<or> rmap t = None)
         \<and> (\<forall>t. t \<in> set decoded \<or> (t \<in> set stack \<and> rmap t = None) \<longrightarrow> t \<in> set y)"
proof (rule expand_loop.raw_induct
    [where P = "\<lambda>rmap stack decoded y.
       (\<forall>t \<in> set y. t \<in> set decoded \<or> rmap t = None)
       \<and> (\<forall>t. t \<in> set decoded \<or> (t \<in> set stack \<and> rmap t = None) \<longrightarrow> t \<in> set y)",
     OF _ assms], goal_cases)
  case (1 loop rmap stack decoded y)
  note IH = 1(1) and body = 1(2)
  show ?case
  proof (cases "stack = []")
    case True
    with body show ?thesis by simp
  next
    case False
    then have "stack = butlast stack @ [last stack]" by simp
    then have "set stack = insert (last stack) (set (butlast stack))"
      by (metis Un_insert_right append_Nil2 list.simps(15) set_append)
    then have mem: "t \<in> set stack \<longleftrightarrow> t \<in> set (butlast stack) \<or> t = last stack" for t
      by auto
    show ?thesis
    proof (cases "rmap (last stack)")
      case None
      with False body have "loop rmap (butlast stack) (decoded @ [last stack]) = Some y"
        by (simp add: Let_def)
      from IH [OF this] None mem show ?thesis by auto
    next
      case (Some p)
      with False body
      have "loop rmap (butlast stack @ [snd p] @ [fst p]) decoded = Some y"
        by (simp add: Let_def)
      from IH [OF this] Some mem show ?thesis by auto
    qed
  qed
qed

lemma expand_loop_cycle_aux:
  assumes "expand_loop rmap stack decoded = Some y"
  shows "rmap t = Some (t, t) \<longrightarrow> stack \<noteq> [] \<longrightarrow> set stack \<subseteq> {t} \<longrightarrow> False"
proof (rule expand_loop.raw_induct
    [where P = "\<lambda>rmap stack decoded y.
       rmap t = Some (t, t) \<longrightarrow> stack \<noteq> [] \<longrightarrow> set stack \<subseteq> {t} \<longrightarrow> False",
     OF _ assms], goal_cases)
  case (1 loop rmap stack decoded y)
  note IH = 1(1) and body = 1(2)
  show ?case
  proof (intro impI)
    assume c: "rmap t = Some (t, t)" and ne: "stack \<noteq> []" and all: "set stack \<subseteq> {t}"
    from ne all have l: "last stack = t" using last_in_set by fastforce
    from all have b: "set (butlast stack) \<subseteq> {t}" by (meson in_set_butlastD subset_iff)
    from ne l c body have "loop rmap (butlast stack @ [t] @ [t]) decoded = Some y"
      by (simp add: Let_def)
    from IH [OF this] c b show False by auto
  qed
qed

lemma expand_loop_cycle:
  "rmap t = Some (t, t) \<Longrightarrow> expand_loop rmap [t] decoded = None"
  using expand_loop_cycle_aux [of rmap "[t]" decoded _ t]
  by (cases "expand_loop rmap [t] decoded") auto

lemma reaches_raw: "reaches rmap x t \<Longrightarrow> rmap x = None \<Longrightarrow> t = x"
  by (induction rule: reaches.induct) auto

lemma reaches_composite:
  "reaches rmap x t \<Longrightarrow> rmap x = Some (a, b)
     \<Longrightarrow> t = x \<or> reaches rmap a t \<or> reaches rmap b t"
proof (induction rule: reaches.induct)
  case self
  then show ?case by simp
next
  case (first t a' b')
  then show ?case by (auto intro: reaches.intros)
next
  case (second t a' b')
  then show ?case by (auto intro: reaches.intros)
qed

lemma expand_loop_reaches:
  assumes "expand_loop rmap stack decoded = Some y"
  shows "\<forall>t. t \<in> set decoded \<or> ((\<exists>s \<in> set stack. reaches rmap s t) \<and> rmap t = None)
           \<longrightarrow> t \<in> set y"
proof (rule expand_loop.raw_induct
    [where P = "\<lambda>rmap stack decoded y.
       \<forall>t. t \<in> set decoded \<or> ((\<exists>s \<in> set stack. reaches rmap s t) \<and> rmap t = None)
         \<longrightarrow> t \<in> set y",
     OF _ assms], goal_cases)
  case (1 loop rmap stack decoded y)
  note IH = 1(1) and body = 1(2)
  show ?case
  proof (cases "stack = []")
    case True
    with body show ?thesis by simp
  next
    case False
    then have "stack = butlast stack @ [last stack]" by simp
    then have "set stack = insert (last stack) (set (butlast stack))"
      by (metis Un_insert_right append_Nil2 list.simps(15) set_append)
    then have mem: "s \<in> set stack \<Longrightarrow> s \<in> set (butlast stack) \<or> s = last stack" for s
      by blast
    show ?thesis
    proof (cases "rmap (last stack)")
      case None
      with False body have "loop rmap (butlast stack) (decoded @ [last stack]) = Some y"
        by (simp add: Let_def)
      from IH [OF this] have ih: "t \<in> set (decoded @ [last stack])
              \<or> ((\<exists>s \<in> set (butlast stack). reaches rmap s t) \<and> rmap t = None)
              \<Longrightarrow> t \<in> set y" for t by (rule allE) (rule mp)
      show ?thesis
      proof (intro allI impI)
        fix t
        assume H: "t \<in> set decoded
                    \<or> ((\<exists>s \<in> set stack. reaches rmap s t) \<and> rmap t = None)"
        show "t \<in> set y"
        proof (cases "t \<in> set decoded")
          case True
          then have "t \<in> set (decoded @ [last stack])" by simp
          then show ?thesis by (intro ih disjI1)
        next
          case notin: False
          with H obtain s where s: "s \<in> set stack" "reaches rmap s t" and n: "rmap t = None"
            by (elim disjE conjE bexE) simp_all
          from mem [OF s(1)] show ?thesis
          proof
            assume "s \<in> set (butlast stack)"
            with s(2) have "\<exists>s \<in> set (butlast stack). reaches rmap s t" by (rule bexI)
            with n show ?thesis by (intro ih disjI2 conjI)
          next
            assume "s = last stack"
            with s(2) have "reaches rmap (last stack) t" by simp
            from reaches_raw [OF this None] have "t \<in> set (decoded @ [last stack])" by simp
            then show ?thesis by (intro ih disjI1)
          qed
        qed
      qed
    next
      case (Some p)
      obtain a b where p: "p = (a, b)" by (cases p)
      from Some p False body
      have "loop rmap (butlast stack @ [b] @ [a]) decoded = Some y"
        by (simp add: Let_def)
      from IH [OF this] have ih: "t \<in> set decoded
              \<or> ((\<exists>s \<in> set (butlast stack @ [b] @ [a]). reaches rmap s t) \<and> rmap t = None)
              \<Longrightarrow> t \<in> set y" for t by (rule allE) (rule mp)
      show ?thesis
      proof (intro allI impI)
        fix t
        assume H: "t \<in> set decoded
                    \<or> ((\<exists>s \<in> set stack. reaches rmap s t) \<and> rmap t = None)"
        show "t \<in> set y"
        proof (cases "t \<in> set decoded")
          case True
          then show ?thesis by (intro ih disjI1)
        next
          case notin: False
          with H obtain s where s: "s \<in> set stack" "reaches rmap s t" and n: "rmap t = None"
            by (elim disjE conjE bexE) simp_all
          have "\<exists>s' \<in> set (butlast stack @ [b] @ [a]). reaches rmap s' t"
            using mem [OF s(1)]
          proof
            assume "s \<in> set (butlast stack)"
            then have "s \<in> set (butlast stack @ [b] @ [a])" by simp
            with s(2) show ?thesis by (rule bexI)
          next
            assume "s = last stack"
            with s(2) have r: "reaches rmap (last stack) t" by simp
            from Some p have "rmap (last stack) = Some (a, b)" by simp
            from reaches_composite [OF r this]
            have "t = last stack \<or> reaches rmap a t \<or> reaches rmap b t" .
            moreover from n Some have "t \<noteq> last stack" by auto
            ultimately have "reaches rmap a t \<or> reaches rmap b t" by simp
            then show ?thesis
            proof
              assume "reaches rmap a t"
              then show ?thesis by (rule bexI) simp
            next
              assume "reaches rmap b t"
              then show ?thesis by (rule bexI) simp
            qed
          qed
          with n show ?thesis by (intro ih disjI2 conjI)
        qed
      qed
    qed
  qed
qed


lemma reaches_below:
  "reaches rmap a t \<Longrightarrow> rmap x = Some (a, b) \<or> rmap x = Some (b, a) \<Longrightarrow> reaches rmap x t"
proof (induction rule: reaches.induct)
  case self
  then show ?case by (auto intro: reaches.first reaches.second reaches.self)
next
  case (first t a' b')
  then show ?case by (blast intro: reaches.first)
next
  case (second t a' b')
  then show ?case by (blast intro: reaches.second)
qed

lemma expand_loop_only_reached:
  assumes "expand_loop rmap stack decoded = Some y"
  shows "\<forall>t \<in> set y. t \<in> set decoded \<or> (\<exists>s \<in> set stack. reaches rmap s t)"
proof (rule expand_loop.raw_induct
    [where P = "\<lambda>rmap stack decoded y.
       \<forall>t \<in> set y. t \<in> set decoded \<or> (\<exists>s \<in> set stack. reaches rmap s t)",
     OF _ assms], goal_cases)
  case (1 loop rmap stack decoded y)
  note IH = 1(1) and body = 1(2)
  show ?case
  proof (cases "stack = []")
    case True
    with body show ?thesis by simp
  next
    case False
    then have top: "last stack \<in> set stack" by simp
    have rest: "s \<in> set (butlast stack) \<Longrightarrow> s \<in> set stack" for s
      by (rule in_set_butlastD)
    show ?thesis
    proof (cases "rmap (last stack)")
      case None
      with False body have "loop rmap (butlast stack) (decoded @ [last stack]) = Some y"
        by (simp add: Let_def)
      from IH [OF this] have ih: "\<forall>t \<in> set y. t \<in> set (decoded @ [last stack])
              \<or> (\<exists>s \<in> set (butlast stack). reaches rmap s t)" .
      show ?thesis
      proof
        fix t assume "t \<in> set y"
        with ih have "t \<in> set (decoded @ [last stack])
              \<or> (\<exists>s \<in> set (butlast stack). reaches rmap s t)" by (rule bspec)
        then consider "t \<in> set decoded" | "t = last stack"
          | s where "s \<in> set (butlast stack)" "reaches rmap s t" by auto
        then show "t \<in> set decoded \<or> (\<exists>s \<in> set stack. reaches rmap s t)"
        proof cases
          case 1
          then show ?thesis by simp
        next
          case 2
          with top have "\<exists>s \<in> set stack. reaches rmap s t"
            by (intro bexI [of _ "last stack"]) (simp_all add: reaches.self)
          then show ?thesis by simp
        next
          case 3
          from 3(2) rest [OF 3(1)] have "\<exists>s \<in> set stack. reaches rmap s t" by (rule bexI)
          then show ?thesis by simp
        qed
      qed
    next
      case (Some p)
      obtain a b where p: "p = (a, b)" by (cases p)
      from Some p have tp: "rmap (last stack) = Some (a, b)" by simp
      from Some p False body
      have "loop rmap (butlast stack @ [b] @ [a]) decoded = Some y"
        by (simp add: Let_def)
      from IH [OF this] have ih: "\<forall>t \<in> set y. t \<in> set decoded
              \<or> (\<exists>s \<in> set (butlast stack @ [b] @ [a]). reaches rmap s t)" .
      show ?thesis
      proof
        fix t assume "t \<in> set y"
        with ih have "t \<in> set decoded
              \<or> (\<exists>s \<in> set (butlast stack @ [b] @ [a]). reaches rmap s t)" by (rule bspec)
        then consider "t \<in> set decoded" | "reaches rmap a t" | "reaches rmap b t"
          | s where "s \<in> set (butlast stack)" "reaches rmap s t" by auto
        then show "t \<in> set decoded \<or> (\<exists>s \<in> set stack. reaches rmap s t)"
        proof cases
          case 1
          then show ?thesis by simp
        next
          case 2
          from reaches_below [OF this, of "last stack" b] tp
          have "reaches rmap (last stack) t" by simp
          from this top have "\<exists>s \<in> set stack. reaches rmap s t" by (rule bexI)
          then show ?thesis by simp
        next
          case 3
          from reaches_below [OF this, of "last stack" a] tp
          have "reaches rmap (last stack) t" by simp
          from this top have "\<exists>s \<in> set stack. reaches rmap s t" by (rule bexI)
          then show ?thesis by simp
        next
          case 4
          from 4(2) rest [OF 4(1)] have "\<exists>s \<in> set stack. reaches rmap s t" by (rule bexI)
          then show ?thesis by simp
        qed
      qed
    qed
  qed
qed

lemma expanded_buffer_tokens:
  assumes "expand_loop rmap (rev encoded) [] = Some buf"
  shows "t \<in> set buf \<longleftrightarrow> (\<exists>s \<in> set encoded. reaches rmap s t) \<and> rmap t = None"
proof
  assume t: "t \<in> set buf"
  with expand_loop_only_reached [OF assms] have "\<exists>s \<in> set encoded. reaches rmap s t" by auto
  moreover from expand_loop_buffer [OF assms] t have "rmap t = None" by auto
  ultimately show "(\<exists>s \<in> set encoded. reaches rmap s t) \<and> rmap t = None" ..
next
  assume "(\<exists>s \<in> set encoded. reaches rmap s t) \<and> rmap t = None"
  then have "t \<in> set [] \<or> ((\<exists>s \<in> set (rev encoded). reaches rmap s t) \<and> rmap t = None)"
    by simp
  with expand_loop_reaches [OF assms] show "t \<in> set buf" by (elim allE) (rule mp)
qed

section \<open>Errors of the decoder\<close>

text \<open>C3, for an expansion that ends and for tokens that are no byte values. If both
  constituents of every id of the merge map are smaller than the id, as in every map that
  training builds, the expansion loop returns a buffer. Whenever it returns a buffer: the
  buffer holds exactly the tokens outside the inverse map that the expansion of the encoded
  sequence meets; if one of them is negative or above 255, decoding raises ValueError; if
  all are in 0..255 but are not valid UTF-8, it raises UnicodeDecodeError; and a text that
  decoding returns has exactly the buffer as its UTF-8 encoding.\<close>

theorem decode_errors_surface:
  "((\<forall>e \<in> set mm. fst (fst e) < snd e \<and> snd (fst e) < snd e)
      \<longrightarrow> (\<exists>buf. expand_loop (reverse_merge_map mm) (rev encoded) [] = Some buf))
   \<and> (\<forall>buf. expand_loop (reverse_merge_map mm) (rev encoded) [] = Some buf \<longrightarrow>
          (\<forall>t. t \<in> set buf \<longleftrightarrow>
                 (\<exists>s \<in> set encoded. reaches (reverse_merge_map mm) s t)
                 \<and> reverse_merge_map mm t = None)
        \<and> (\<forall>t \<in> set buf. reverse_merge_map mm t = None)
        \<and> (\<forall>t \<in> set encoded. reverse_merge_map mm t = None \<longrightarrow> t \<in> set buf)
        \<and> ((\<exists>s \<in> set encoded. \<exists>t. reaches (reverse_merge_map mm) s t
                \<and> reverse_merge_map mm t = None \<and> (t < 0 \<or> 255 < t))
              \<longrightarrow> decode_byte_pair encoded mm = Some (Inl ValueError))
        \<and> ((\<exists>t \<in> set buf. t < 0 \<or> 255 < t)
              \<longrightarrow> decode_byte_pair encoded mm = Some (Inl ValueError))
        \<and> ((\<forall>t \<in> set buf. 0 \<le> t \<and> t \<le> 255) \<and> utf8_decode (map nat buf) = None
              \<longrightarrow> decode_byte_pair encoded mm = Some (Inl UnicodeDecodeError))
        \<and> (\<forall>s. decode_byte_pair encoded mm = Some (Inr s)
              \<longrightarrow> map int (utf8_bytes s) = buf))"
proof (intro conjI allI impI)
  assume "\<forall>e \<in> set mm. fst (fst e) < snd e \<and> snd (fst e) < snd e"
  then show "\<exists>buf. expand_loop (reverse_merge_map mm) (rev encoded) [] = Some buf"
    by (rule expand_loop_returns)
next
  fix buf
  assume e: "expand_loop (reverse_merge_map mm) (rev encoded) [] = Some buf"
  show "t \<in> set buf \<longleftrightarrow>
          (\<exists>s \<in> set encoded. reaches (reverse_merge_map mm) s t)
          \<and> reverse_merge_map mm t = None" for t
    by (rule expanded_buffer_tokens [OF e])
  from expand_loop_buffer [OF e]
  show "\<forall>t \<in> set buf. reverse_merge_map mm t = None"
    and "\<forall>t \<in> set encoded. reverse_merge_map mm t = None \<longrightarrow> t \<in> set buf"
    by auto
  have dec: "decode_byte_pair encoded mm =
               Some (case py_bytes_of buf of Inl e \<Rightarrow> Inl e | Inr bs \<Rightarrow> bytes_decode bs)"
    by (simp add: decode_byte_pair_def e)
  have bad: "decode_byte_pair encoded mm = Some (Inl ValueError)"
    if "\<exists>t \<in> set buf. t < 0 \<or> 255 < t"
  proof -
    from that have "\<not> list_all (\<lambda>t. 0 \<le> t \<and> t < 256) buf" by (fastforce simp: list_all_iff)
    then show ?thesis by (simp add: dec py_bytes_of_def)
  qed
  {
    assume "\<exists>s \<in> set encoded. \<exists>t. reaches (reverse_merge_map mm) s t
                \<and> reverse_merge_map mm t = None \<and> (t < 0 \<or> 255 < t)"
    then obtain s t where "s \<in> set encoded" "reaches (reverse_merge_map mm) s t"
      "reverse_merge_map mm t = None" and out: "t < 0 \<or> 255 < t" by blast
    then have "t \<in> set buf" unfolding expanded_buffer_tokens [OF e] by blast
    with out have "\<exists>t \<in> set buf. t < 0 \<or> 255 < t" by blast
    then show "decode_byte_pair encoded mm = Some (Inl ValueError)" by (rule bad)
  }
  {
    assume "\<exists>t \<in> set buf. t < 0 \<or> 255 < t"
    then show "decode_byte_pair encoded mm = Some (Inl ValueError)" by (rule bad)
  }
  {
    assume "(\<forall>t \<in> set buf. 0 \<le> t \<and> t \<le> 255) \<and> utf8_decode (map nat buf) = None"
    then have "list_all (\<lambda>t. 0 \<le> t \<and> t < 256) buf" "utf8_decode (map nat buf) = None"
      by (auto simp: list_all_iff)
    then show "decode_byte_pair encoded mm = Some (Inl UnicodeDecodeError)"
      by (simp add: dec py_bytes_of_def bytes_decode_def)
  }
  {
    fix s
    assume r: "decode_byte_pair encoded mm = Some (Inr s)"
    with dec have ok: "list_all (\<lambda>t. 0 \<le> t \<and> t < 256) buf"
      by (cases "list_all (\<lambda>t. 0 \<le> t \<and> t < 256) buf") (simp_all add: py_bytes_of_def)
    with r dec have "utf8_decode (map nat buf) = Some s"
      by (cases "utf8_decode (map nat buf)") (simp_all add: py_bytes_of_def bytes_decode_def)
    from encode_decode [OF this] have "map int (utf8_bytes s) = map int (map nat buf)" by simp
    also from ok have "map int (map nat buf) = buf" by (induction buf) simp_all
    finally show "map int (utf8_bytes s) = buf" .
  }
qed

theorem decode_errors_surface_witness:
  "(65 :: int) < 500 \<and> (400 :: int) < 500
   \<and> decode_byte_pair [500] [((65, 400), 500)] = Some (Inl ValueError)
   \<and> decode_byte_pair [300, 999] [((65, 66), 300)] = Some (Inl ValueError)
   \<and> expand_loop (reverse_merge_map []) (rev [255]) [] = Some [255]
   \<and> decode_byte_pair [255] [] = Some (Inl UnicodeDecodeError)"
proof -
  let ?rm = "reverse_merge_map [((65, 400), 500)]"
  have a: "\<forall>e \<in> set [((65, 400), 500 :: int)]. fst (fst e) < snd e \<and> snd (fst e) < snd e"
    by simp
  note t1 = decode_errors_surface [of "[((65, 400), 500)]" "[500]"]
  from t1 a obtain buf where
    e: "expand_loop ?rm (rev [500]) [] = Some buf" by blast
  have c: "?rm 500 = Some (65, 400)" and n: "?rm 400 = None"
    by (simp_all add: reverse_merge_map_def)
  from reaches.self [of ?rm 500] c have "reaches ?rm 500 400" by (rule reaches.second)
  with n have "\<exists>s \<in> set [500]. \<exists>t. reaches ?rm s t \<and> ?rm t = None \<and> (t < 0 \<or> 255 < t)"
    by (intro bexI [of _ 500] exI [of _ 400]) simp_all
  with t1 e have v1: "decode_byte_pair [500] [((65, 400), 500)] = Some (Inl ValueError)"
    by blast
  have a2: "\<forall>e \<in> set [((65, 66), 300 :: int)]. fst (fst e) < snd e \<and> snd (fst e) < snd e"
    by simp
  note t2 = decode_errors_surface [of "[((65, 66), 300)]" "[300, 999]"]
  from t2 a2 obtain buf2 where
    e2: "expand_loop (reverse_merge_map [((65, 66), 300)]) (rev [300, 999]) [] = Some buf2"
    by blast
  have "reverse_merge_map [((65, 66), 300)] 999 = None" by (simp add: reverse_merge_map_def)
  with t2 e2 have "999 \<in> set buf2" by auto
  then have "\<exists>t \<in> set buf2. t < 0 \<or> 255 < t" by (intro bexI [of _ 999]) simp_all
  with t2 e2 have v2: "decode_byte_pair [300, 999] [((65, 66), 300)] = Some (Inl ValueError)"
    by blast
  have e3: "expand_loop (reverse_merge_map []) (rev [255]) [] = Some [255]"
    using expand_loop_no_merges [of "[255]"] by (simp add: reverse_merge_map_def)
  have "(\<forall>t \<in> set [255 :: int]. 0 \<le> t \<and> t \<le> 255) \<and> utf8_decode (map nat [255]) = None"
    by simp
  with decode_errors_surface [of "[]" "[255]"] e3
  have u: "decode_byte_pair [255] [] = Some (Inl UnicodeDecodeError)" by blast
  from v1 v2 e3 u show ?thesis by simp
qed

lemma joined_bytes_aaaa: "joined_bytes [[97, 97, 97, 97]] = Inr [97, 97, 97, 97]"
  by (simp add: joined_bytes_def str_encode_def utf8_bytes_def encode_cp_def encodable_def)

lemma train_aaaa:
  "train 2 \<lparr>byte_text = [97, 97, 97, 97], token_id = 98, merge_map = []\<rparr>
     = Inr \<lparr>byte_text = [99], token_id = 100,
            merge_map = [((97, 97), 98), ((98, 98), 99)]\<rparr>"
  by code_simp

lemma bpe_aaaa:
  "byte_pair_encoding [[97, 97, 97, 97]] 2 = Inr ([99], [((97, 97), 98), ((98, 98), 99)])"
  by (simp add: byte_pair_encoding_def joined_bytes_aaaa py_max_def train_aaaa
        del: train.simps)

text \<open>Two ways in which no error is raised. Training on \<^verbatim>\<open>aaaa\<close> allocates the ids 98
  and 99, both below 256; under the merge map of the first merge alone the id 99 is outside
  the inverse map, and it is decoded as the byte of \<^verbatim>\<open>c\<close>. And with a merge map in which
  an id is its own constituent the loop does not end, although the id 999, outside the
  inverse map, is met first.\<close>

theorem decode_silent_or_endless:
  "byte_pair_encoding [[97, 97, 97, 97]] 2 = Inr ([99], [((97, 97), 98), ((98, 98), 99)])
   \<and> reverse_merge_map [((97, 97), 98)] 99 = None
   \<and> decode_byte_pair [99] [((97, 97), 98)] = Some (Inr [99])
   \<and> reverse_merge_map [((300, 300), 300)] 999 = None
   \<and> decode_byte_pair [999, 300] [((300, 300), 300)] = None"
proof -
  let ?rm = "reverse_merge_map [((300, 300), 300)]"
  have out: "?rm 999 = None" and cyc: "?rm 300 = Some (300, 300)"
    by (simp_all add: reverse_merge_map_def)
  have "expand_loop ?rm (rev [999, 300]) [] = expand_loop ?rm ([300] @ [999]) []" by simp
  also have "\<dots> = expand_loop ?rm [300] ([] @ [999])" using out by (rule expand_loop_pop_raw)
  also have "\<dots> = None" using cyc by (rule expand_loop_cycle)
  finally have endless: "decode_byte_pair [999, 300] [((300, 300), 300)] = None"
    by (simp add: decode_byte_pair_def)
  have raw: "reverse_merge_map [((97, 97), 98)] 99 = None"
    by (simp add: reverse_merge_map_def)
  have "expand_loop (reverse_merge_map [((97, 97), 98)]) ([] @ [99]) []
          = expand_loop (reverse_merge_map [((97, 97), 98)]) [] ([] @ [99])"
    using raw by (rule expand_loop_pop_raw)
  then have "expand_loop (reverse_merge_map [((97, 97), 98)]) (rev [99]) [] = Some [99]"
    by simp
  then have silent: "decode_byte_pair [99] [((97, 97), 98)] = Some (Inr [99])"
    by (simp add: decode_byte_pair_def py_bytes_of_def bytes_decode_def)
  from bpe_aaaa raw silent out endless show ?thesis by (intro conjI)
qed

end
